theory Spec2Isabelle
  imports Main
begin

section \<open>The dispatch engine of lib/server.js\<close>

text \<open>
  A shallow embedding of \<^verbatim>\<open>lib/server.js\<close>: the registration operation \<^verbatim>\<open>use\<close>, the
  traversal \<^verbatim>\<open>handle\<close> with its continuation \<^verbatim>\<open>next\<close>, the invocation \<^verbatim>\<open>call\<close> and
  \<^verbatim>\<open>getProtohost\<close>.  Strings are lists of characters, one \<open>char\<close> per JavaScript
  code unit, the code units being those below 256.
\<close>

subsection \<open>JavaScript values and strings\<close>

text \<open>The values a continuation can be called with, or that a handler can throw.\<close>

datatype jsval =
    Undefined
  | Null
  | JBool bool
  | JNum int
  | JStr string
  | JError string

text \<open>\<^verbatim>\<open>Boolean(err)\<close>: the falsy values are undefined, null, false, 0 and the empty string.\<close>

fun Boolean :: "jsval \<Rightarrow> bool" where
  "Boolean Undefined = False"
| "Boolean Null = False"
| "Boolean (JBool b) = b"
| "Boolean (JNum k) = (k \<noteq> 0)"
| "Boolean (JStr s) = (s \<noteq> [])"
| "Boolean (JError m) = True"

text \<open>
  The lower-case form of a code unit below 256, as \<^verbatim>\<open>String.prototype.toLowerCase\<close> gives
  it: the letters A to Z (65 to 90) and the capital letters of Latin-1 (192 to 222, the
  multiplication sign 215 apart) move up by 32; every other code unit is left alone.
\<close>

definition lower_char :: "char \<Rightarrow> char" where
  "lower_char c =
     (let k = (of_char c :: nat)
      in if (65 \<le> k \<and> k \<le> 90) \<or> (192 \<le> k \<and> k \<le> 222 \<and> k \<noteq> 215)
         then char_of (k + 32) else c)"

text \<open>\<^verbatim>\<open>String.prototype.toLowerCase\<close>, code unit by code unit.\<close>

definition toLowerCase :: "string \<Rightarrow> string" where
  "toLowerCase s = map lower_char s"

text \<open>\<^verbatim>\<open>s.indexOf(pat, from)\<close> for a non-empty pattern; \<open>None\<close> stands for -1.\<close>

definition indexOf :: "string \<Rightarrow> string \<Rightarrow> nat \<Rightarrow> nat option" where
  "indexOf s pat from =
     List.find (\<lambda>i. take (length pat) (drop i s) = pat) [from ..< Suc (length s)]"

text \<open>
  \<^verbatim>\<open>getProtohost(url)\<close>.  \<open>None\<close> is \<^verbatim>\<open>undefined\<close>.  When no slash follows the scheme,
  \<^verbatim>\<open>url.substr(0, -1)\<close> is the empty string.
\<close>

definition getProtohost :: "string \<Rightarrow> string option" where
  "getProtohost u =
     (if u = [] \<or> hd u = CHR ''/'' then None
      else
        let pathLength = (case indexOf u ''?'' 0 of Some i \<Rightarrow> i | None \<Rightarrow> length u) in
        case indexOf (take pathLength u) ''://'' 0 of
          None \<Rightarrow> None
        | Some fqdnIndex \<Rightarrow>
            (case indexOf u ''/'' (3 + fqdnIndex) of
               Some j \<Rightarrow> Some (take j u)
             | None \<Rightarrow> Some []))"

subsection \<open>Handlers, layers and servers\<close>

text \<open>
  What a handler does when it is invoked, as a script over the request and the
  continuation it was given: it may rewrite \<^verbatim>\<open>req.url\<close>, call \<^verbatim>\<open>next(v)\<close> on the spot,
  arrange for \<^verbatim>\<open>next(v)\<close> to be called on a later turn, or throw.  A script that ends
  without calling the continuation has answered the request (or left it hanging).
\<close>

datatype cmd =
    SetUrl string
  | CallNext jsval
  | DeferNext jsval
  | Throw jsval

text \<open>
  Modelled from the spec: the constructor \<open>Endpoint\<close> stands for the class \<^verbatim>\<open>Endpoint\<close> of
  \<^verbatim>\<open>lib/endpoint.js\<close>, which is not among the sources.  An \<open>Endpoint body\<close> is an object
  without a \<^verbatim>\<open>length\<close> property whose method \<^verbatim>\<open>handle(req, res, next)\<close> runs \<open>body\<close>; the
  spec counts it as a normal handler.

  The other objects that can be registered are those of the source.  \<open>Fn len body\<close> is
  a function declaring \<open>len\<close> parameters.  \<open>HttpServer ls\<close> is an \<^verbatim>\<open>http.Server\<close> with
  its \<^verbatim>\<open>request\<close> listeners.  \<open>App srv\<close> is a server made by \<^verbatim>\<open>createServer\<close>, or the
  function \<^verbatim>\<open>function (req, res, next) { server.handle(req, res, next) }\<close> that \<^verbatim>\<open>use\<close>
  wraps around it: both declare three parameters and both run \<^verbatim>\<open>server.handle\<close>.  The
  sub-app is taken as it is when it is mounted.
\<close>

datatype handle =
    Fn nat "cmd list"
  | HttpServer "handle list"
  | Endpoint "cmd list"
  | App server
and server = Server (server_route: string) (stack: "layer list")
and layer = Layer (route: string) (handle: handle)

text \<open>\<^verbatim>\<open>createServer()\<close>: route \<^verbatim>\<open>'/'\<close> and an empty stack.\<close>

definition createServer :: server where
  "createServer = Server ''/'' []"

datatype error = TypeError

text \<open>
  The first argument of \<^verbatim>\<open>use\<close>: a string, or else one of the objects above (the
  documented types of the parameter).
\<close>

datatype usearg = S string | H handle

text \<open>\<^verbatim>\<open>if (lpath[lpath.length - 1] === '/') lpath = lpath.slice(0, -1)\<close>\<close>

definition strip_trailing_slash :: "string \<Rightarrow> string" where
  "strip_trailing_slash lpath =
     (if lpath \<noteq> [] \<and> last lpath = CHR ''/'' then butlast lpath else lpath)"

text \<open>
  The three wrapping branches of \<^verbatim>\<open>use\<close>.  An \<^verbatim>\<open>http.Server\<close> is replaced by its first
  \<^verbatim>\<open>request\<close> listener, and setting a property of \<^verbatim>\<open>undefined\<close> raises when there is
  none.  For an Endpoint, \<^verbatim>\<open>path.basename(route)\<close> raises when \<^verbatim>\<open>route\<close> is not a string.
  A sub-app gets \<^verbatim>\<open>server.route = lpath\<close>.  The properties \<^verbatim>\<open>fullRoute\<close>, \<^verbatim>\<open>name\<close> and
  \<^verbatim>\<open>owner\<close> are only read by the debug output and are left out.
\<close>

definition wrap :: "usearg \<Rightarrow> string \<Rightarrow> handle \<Rightarrow> error + handle" where
  "wrap route_arg lpath lhandle =
     (case lhandle of
        HttpServer ls \<Rightarrow> (case ls of [] \<Rightarrow> Inl TypeError | l # _ \<Rightarrow> Inr l)
      | Endpoint b \<Rightarrow> (case route_arg of S r \<Rightarrow> Inr (Endpoint b) | H _ \<Rightarrow> Inl TypeError)
      | App srv \<Rightarrow> Inr (App (Server lpath (stack srv)))
      | Fn len b \<Rightarrow> Inr (Fn len b))"

text \<open>
  \<^verbatim>\<open>use(route, fn)\<close> on the server \<open>this\<close>; \<open>fn = None\<close> when the second argument is
  left out.  With a string route and no \<open>fn\<close>, reading \<^verbatim>\<open>lhandle.handle\<close> raises.
\<close>

definition use :: "usearg \<Rightarrow> handle option \<Rightarrow> server \<Rightarrow> error + server" where
  "use route_arg fn this =
     (let (lhandle, lpath) = (case route_arg of S r \<Rightarrow> (fn, r) | H h \<Rightarrow> (Some h, ''/''))
      in case lhandle of
           None \<Rightarrow> Inl TypeError
         | Some h \<Rightarrow>
             (case wrap route_arg lpath h of
                Inl e \<Rightarrow> Inl e
              | Inr h' \<Rightarrow>
                  Inr (Server (server_route this)
                         (stack this @ [Layer (strip_trailing_slash lpath) h']))))"

text \<open>
  \<^verbatim>\<open>let arity = handle.length || (handle instanceof Endpoint ? 1 : undefined)\<close>;
  \<open>None\<close> is \<^verbatim>\<open>undefined\<close>.  A length of 0 is falsy.
\<close>

fun arity_of :: "handle \<Rightarrow> nat option" where
  "arity_of (Fn len b) = (if len \<noteq> 0 then Some len else None)"
| "arity_of (Endpoint b) = Some 1"
| "arity_of (App srv) = Some 3"
| "arity_of (HttpServer ls) = None"

text \<open>\<^verbatim>\<open>arity < 4\<close>, which is false for \<^verbatim>\<open>undefined\<close>.\<close>

definition arity_lt4 :: "nat option \<Rightarrow> bool" where
  "arity_lt4 a = (case a of None \<Rightarrow> False | Some k \<Rightarrow> k < 4)"

subsection \<open>The state of a request\<close>

text \<open>
  A continuation: the \<^verbatim>\<open>next\<close> closure of the traversal with the given number, or the
  terminal one (the \<^verbatim>\<open>out\<close> given to the outermost \<^verbatim>\<open>handle\<close>, or \<^verbatim>\<open>finalhandler\<close>).
\<close>

datatype cont = KNext nat | KOut

text \<open>The variables that one call of \<^verbatim>\<open>handle\<close> closes over.\<close>

record frame =
  index :: nat
  protohost :: string
  removed :: string
  slashAdded :: bool
  fstack :: "layer list"
  fdone :: cont

text \<open>How a handler was called: \<^verbatim>\<open>handle(err, req, res, next)\<close> or \<^verbatim>\<open>handle(req, res, next)\<close>.\<close>

datatype args = ErrReqResNext jsval | ReqResNext

text \<open>
  What is observed of a request: the invocation of the handler of layer \<open>ev_index\<close>
  of traversal \<open>ev_frame\<close>, with the arity computed for it, the value of \<open>err\<close> at that
  moment, the arguments and \<^verbatim>\<open>req.url\<close> as the handler finds it; and the calls of the
  terminal continuation.
\<close>

datatype event =
    Invoked (ev_frame: nat) (ev_index: nat) (ev_arity: "nat option") (ev_err: jsval)
      (ev_args: args) (ev_url: string)
  | Final jsval

text \<open>
  \<^verbatim>\<open>req.url\<close> and \<^verbatim>\<open>req.originalUrl\<close> (\<open>None\<close> when the property is not set), the
  traversals begun so far, the calls handed to \<^verbatim>\<open>setImmediate\<close> and not yet run, and
  the events so far.
\<close>

record state =
  url :: string
  originalUrl :: "string option"
  frames :: "frame list"
  queue :: "(cont \<times> jsval) list"
  trace :: "event list"

text \<open>A request as it arrives: nothing has run yet.\<close>

definition request :: "string \<Rightarrow> string option \<Rightarrow> state" where
  "request u orig = \<lparr>url = u, originalUrl = orig, frames = [], queue = [], trace = []\<rparr>"

subsection \<open>The steps of \<^verbatim>\<open>next\<close>\<close>

text \<open>
  The first two statements of \<^verbatim>\<open>next\<close>: drop the slash that was added, put back what
  was removed.
\<close>

definition restore_url :: "frame \<Rightarrow> string \<Rightarrow> string" where
  "restore_url f u =
     (let u1 = (if slashAdded f then drop 1 u else u)
      in if length (removed f) \<noteq> 0
         then protohost f @ removed f @ drop (length (protohost f)) u1
         else u1)"

text \<open>The frame after these two statements and \<^verbatim>\<open>index++\<close>.\<close>

definition advance :: "frame \<Rightarrow> frame" where
  "advance f = f\<lparr>index := Suc (index f), removed := [], slashAdded := False\<rparr>"

text \<open>
  \<^verbatim>\<open>parseUrl(req).pathname || '/'\<close>.  The module \<^verbatim>\<open>parseurl\<close> is not part of the
  repository: \<open>pn\<close> is its pathname as a function of \<^verbatim>\<open>req.url\<close>, empty when it is null.
\<close>

definition pathname :: "(string \<Rightarrow> string) \<Rightarrow> string \<Rightarrow> string" where
  "pathname pn u = (if pn u = [] then ''/'' else pn u)"

text \<open>\<^verbatim>\<open>path.toLowerCase().substr(0, route.length) !== route.toLowerCase()\<close>, negated.\<close>

definition prefix_ok :: "string \<Rightarrow> string \<Rightarrow> bool" where
  "prefix_ok rt path = (take (length rt) (toLowerCase path) = toLowerCase rt)"

text \<open>
  \<^verbatim>\<open>let c = path[route.length]; c !== undefined && '/' !== c && '.' !== c\<close>, negated.
\<close>

definition boundary_ok :: "string \<Rightarrow> string \<Rightarrow> bool" where
  "boundary_ok rt path =
     (\<not> (length rt < length path \<and> path ! length rt \<noteq> CHR ''/''
          \<and> path ! length rt \<noteq> CHR ''.''))"

text \<open>Trimming the route off \<^verbatim>\<open>req.url\<close>, with the leading slash ensured.\<close>

definition trim :: "frame \<Rightarrow> string \<Rightarrow> string \<Rightarrow> frame \<times> string" where
  "trim f rt u =
     (if length rt \<noteq> 0 \<and> rt \<noteq> ''/'' then
        let u1 = protohost f @ drop (length (protohost f) + length rt) u in
        if protohost f = [] \<and> (case u1 of [] \<Rightarrow> True | c # _ \<Rightarrow> c \<noteq> CHR ''/'')
        then (f\<lparr>removed := rt, slashAdded := True\<rparr>, CHR ''/'' # u1)
        else (f\<lparr>removed := rt\<rparr>, u1)
      else (f, u))"

text \<open>The state with \<^verbatim>\<open>req.url\<close> and the variables of traversal \<open>fid\<close> replaced.\<close>

definition set_frame :: "nat \<Rightarrow> frame \<Rightarrow> string \<Rightarrow> state \<Rightarrow> state" where
  "set_frame fid f u st = st\<lparr>url := u, frames := (frames st)[fid := f]\<rparr>"

text \<open>\<^verbatim>\<open>defer(done, err)\<close>: the call is handed to \<^verbatim>\<open>setImmediate\<close>.\<close>

definition defer' :: "cont \<Rightarrow> jsval \<Rightarrow> state \<Rightarrow> state" where
  "defer' k v st = st\<lparr>queue := queue st @ [(k, v)]\<rparr>"

definition log_event :: "event \<Rightarrow> state \<Rightarrow> state" where
  "log_event e st = st\<lparr>trace := trace st @ [e]\<rparr>"

text \<open>The event of invoking the layer that traversal \<open>fid\<close> has just taken.\<close>

definition invoked :: "nat \<Rightarrow> nat option \<Rightarrow> jsval \<Rightarrow> args \<Rightarrow> state \<Rightarrow> event" where
  "invoked fid a err as st =
     Invoked fid (index (frames st ! fid) - 1) a err as (url st)"

text \<open>\<^verbatim>\<open>req.originalUrl = req.originalUrl || req.url\<close>; the empty string is falsy.\<close>

definition store_originalUrl :: "state \<Rightarrow> state" where
  "store_originalUrl st =
     st\<lparr>originalUrl :=
          (case originalUrl st of
             None \<Rightarrow> Some (url st)
           | Some s \<Rightarrow> if s = [] then Some (url st) else Some s)\<rparr>"

text \<open>The variables of a new traversal: \<^verbatim>\<open>getProtohost(req.url) || ''\<close> and the rest.\<close>

definition new_frame :: "layer list \<Rightarrow> cont \<Rightarrow> string \<Rightarrow> frame" where
  "new_frame stk out u =
     \<lparr>index = 0,
      protohost = (case getProtohost u of None \<Rightarrow> [] | Some p \<Rightarrow> p),
      removed = [], slashAdded = False, fstack = stk, fdone = out\<rparr>"

subsection \<open>\<^verbatim>\<open>next\<close>, \<^verbatim>\<open>call\<close> and \<^verbatim>\<open>handle\<close>\<close>

text \<open>
  The five functions call one another; the argument \<open>n\<close> bounds the number of nested
  calls of \<^verbatim>\<open>next\<close>, and \<open>None\<close> says that the bound was reached (or that there is no
  traversal with the number given, which no run from a request comes to).

  \<open>next' pn n fid err\<close> is \<^verbatim>\<open>next(err)\<close> of traversal \<open>fid\<close>.
  \<open>call pn n h rt err fid\<close> is \<^verbatim>\<open>call(handle, route, err, req, res, next)\<close>, the
  \<^verbatim>\<open>next\<close> being that of traversal \<open>fid\<close>.  \<open>invoke\<close> is the call of the handler inside
  the \<^verbatim>\<open>try\<close> block: it yields the value thrown, if any.  Calling an object that is no
  function raises.  \<open>exec\<close> runs a handler's script.  \<open>handle'\<close> is
  \<^verbatim>\<open>handle(req, res, out)\<close> of a server with the given stack.
\<close>

function (sequential) next' :: "(string \<Rightarrow> string) \<Rightarrow> nat \<Rightarrow> nat \<Rightarrow> jsval \<Rightarrow> state \<Rightarrow> state option"
and call :: "(string \<Rightarrow> string) \<Rightarrow> nat \<Rightarrow> handle \<Rightarrow> string \<Rightarrow> jsval \<Rightarrow> nat \<Rightarrow> state
               \<Rightarrow> state option"
and invoke :: "(string \<Rightarrow> string) \<Rightarrow> nat \<Rightarrow> handle \<Rightarrow> nat \<Rightarrow> state
               \<Rightarrow> (jsval option \<times> state) option"
and exec :: "(string \<Rightarrow> string) \<Rightarrow> nat \<Rightarrow> cmd list \<Rightarrow> nat \<Rightarrow> state
               \<Rightarrow> (jsval option \<times> state) option"
and handle' :: "(string \<Rightarrow> string) \<Rightarrow> nat \<Rightarrow> layer list \<Rightarrow> cont \<Rightarrow> state \<Rightarrow> state option"
where
  "next' pn 0 fid err st = None"
| "next' pn (Suc n) fid err st =
     (if length (frames st) \<le> fid then None
      else
        let f = frames st ! fid;
            u = restore_url f (url st);
            st1 = set_frame fid (advance f) u st
        in if length (fstack f) \<le> index f then Some (defer' (fdone f) err st1)
           else
             let layer = fstack f ! index f;
                 path = pathname pn u;
                 rt = route layer
             in if \<not> prefix_ok rt path then next' pn n fid err st1
                else if \<not> boundary_ok rt path then next' pn n fid err st1
                else
                  let (f2, u2) = trim (advance f) rt u
                  in call pn n (handle layer) rt err fid (set_frame fid f2 u2 st))"
| "call pn n h rt err fid st =
     (let arity = arity_of h; hasError = Boolean err
      in if hasError \<and> arity = Some 4 then
           (case invoke pn n h fid
                   (log_event (invoked fid arity err (ErrReqResNext err) st) st) of
              None \<Rightarrow> None
            | Some (None, st') \<Rightarrow> Some st'
            | Some (Some e, st') \<Rightarrow> next' pn n fid e st')
         else if \<not> hasError \<and> arity_lt4 arity then
           (case invoke pn n h fid (log_event (invoked fid arity err ReqResNext st) st) of
              None \<Rightarrow> None
            | Some (None, st') \<Rightarrow> Some st'
            | Some (Some e, st') \<Rightarrow> next' pn n fid e st')
         else next' pn n fid err st)"
| "invoke pn n (Fn len body) fid st = exec pn n body fid st"
| "invoke pn n (Endpoint body) fid st = exec pn n body fid st"
| "invoke pn n (App srv) fid st =
     (case handle' pn n (stack srv) (KNext fid) st of
        None \<Rightarrow> None
      | Some st' \<Rightarrow> Some (None, st'))"
| "invoke pn n (HttpServer ls) fid st = Some (Some (JError ''TypeError''), st)"
| "exec pn n [] fid st = Some (None, st)"
| "exec pn n (c # cs) fid st =
     (case c of
        SetUrl s \<Rightarrow> exec pn n cs fid (st\<lparr>url := s\<rparr>)
      | CallNext v \<Rightarrow>
          (case next' pn n fid v st of
             None \<Rightarrow> None
           | Some st' \<Rightarrow> exec pn n cs fid st')
      | DeferNext v \<Rightarrow> exec pn n cs fid (defer' (KNext fid) v st)
      | Throw v \<Rightarrow> Some (Some v, st))"
| "handle' pn n stk out st =
     (let st1 = store_originalUrl st;
          fid = length (frames st1)
      in next' pn n fid Undefined
           (st1\<lparr>frames := frames st1 @ [new_frame stk out (url st)]\<rparr>))"
  by pat_completeness auto

termination
  apply (relation "inv_image (less_than <*lex*> less_than <*lex*> less_than)
     (case_sum
        (case_sum (\<lambda>(pn, n, fid, err, st). (n, 1::nat, 0::nat))
                  (\<lambda>(pn, n, h, rt, err, fid, st). (n, 4, 0)))
        (case_sum (\<lambda>(pn, n, h, fid, st). (n, 3, 0))
           (case_sum (\<lambda>(pn, n, cs, fid, st). (n, 2, length cs))
                     (\<lambda>(pn, n, stk, out, st). (n, 2, 0)))))")
  apply (intro wf_inv_image wf_lex_prod wf_less_than)
  apply simp_all
  done

subsection \<open>The turns of the event loop\<close>

text \<open>
  \<^verbatim>\<open>setImmediate\<close> runs the calls handed to it one per turn, in order.  The terminal
  continuation is outside the repository: its call is recorded.  The first argument
  bounds the number of turns.
\<close>

fun run_queue :: "(string \<Rightarrow> string) \<Rightarrow> nat \<Rightarrow> state \<Rightarrow> state option" where
  "run_queue pn 0 st = (if queue st = [] then Some st else None)"
| "run_queue pn (Suc n) st =
     (case queue st of
        [] \<Rightarrow> Some st
      | (k, v) # q \<Rightarrow>
          (case k of
             KOut \<Rightarrow> run_queue pn n (log_event (Final v) (st\<lparr>queue := q\<rparr>))
           | KNext fid \<Rightarrow>
               (case next' pn (Suc n) fid v (st\<lparr>queue := q\<rparr>) of
                  None \<Rightarrow> None
                | Some st' \<Rightarrow> run_queue pn n st')))"

text \<open>
  \<^verbatim>\<open>Server(req, res, next)\<close> for a request that arrives, first the call itself and then
  the turns that follow it.
\<close>

definition Server_call :: "(string \<Rightarrow> string) \<Rightarrow> nat \<Rightarrow> server \<Rightarrow> state \<Rightarrow> state option" where
  "Server_call pn n srv st = handle' pn n (stack srv) KOut st"

definition serve :: "(string \<Rightarrow> string) \<Rightarrow> nat \<Rightarrow> server \<Rightarrow> state \<Rightarrow> state option" where
  "serve pn n srv st =
     (case Server_call pn n srv st of
        None \<Rightarrow> None
      | Some st' \<Rightarrow> run_queue pn n st')"

text \<open>
  Modelled from the spec: \<^verbatim>\<open>parseurl\<close> is an external module.  Its pathname is taken
  to be the request target without the protocol and host, up to the query string.
\<close>

definition parseUrl_pathname :: "string \<Rightarrow> string" where
  "parseUrl_pathname u =
     takeWhile (\<lambda>c. c \<noteq> CHR ''?'')
       (drop (length (case getProtohost u of None \<Rightarrow> [] | Some p \<Rightarrow> p)) u)"

declare call.simps [simp del] handle'.simps [simp del] next'.simps(2) [simp del]

subsection \<open>Requests and servers used as examples\<close>

text \<open>
  The state in which traversal 0, over the given stack, has taken its first layer and
  left \<^verbatim>\<open>req.url\<close> alone.
\<close>

definition on_layer :: "layer list \<Rightarrow> string \<Rightarrow> state" where
  "on_layer stk u =
     \<lparr>url = u, originalUrl = Some u,
      frames = [(new_frame stk KOut u)\<lparr>index := 1\<rparr>], queue = [], trace = []\<rparr>"

text \<open>A server with one handler mounted at \<^verbatim>\<open>/adm\<close>, which answers.\<close>

definition adm :: server where
  "adm = Server ''/'' [Layer ''/adm'' (Fn 3 [])]"



subsection \<open>Propagation modes\<close>

text \<open>
  The two ways in which \<^verbatim>\<open>call\<close> invokes a handler, as a condition on the arity it
  computed, the value of \<open>err\<close> and the arguments given: an arity of 4 goes with a truthy
  \<open>err\<close>, passed first; any other arity is below 4 and goes with a falsy \<open>err\<close>, not
  passed.
\<close>

definition mode_guard :: "nat option \<Rightarrow> jsval \<Rightarrow> args \<Rightarrow> bool" where
  "mode_guard a err as =
     (if a = Some 4 then Boolean err \<and> as = ErrReqResNext err
      else arity_lt4 a \<and> \<not> Boolean err \<and> as = ReqResNext)"

definition mode_ok :: "event \<Rightarrow> bool" where
  "mode_ok ev = (case ev of Invoked fid i a err as u \<Rightarrow> mode_guard a err as | Final v \<Rightarrow> True)"

text \<open>
  A normal handler that throws, an error handler that answers, a normal handler.
\<close>

definition abc :: server where
  "abc = Server ''/'' [Layer [] (Fn 3 [Throw (JError ''x'')]), Layer [] (Fn 4 []),
                       Layer [] (Fn 2 [])]"

definition abc_served :: state where
  "abc_served = the (serve parseUrl_pathname 4 abc (request ''/'' None))"

text \<open>A server with nothing but an error handler.\<close>

definition err_only :: server where
  "err_only = Server ''/'' [Layer [] (Fn 4 [])]"

text \<open>A traversal that has gone past its only layer.\<close>

definition exhausted_state :: state where
  "exhausted_state = on_layer [Layer [] (Fn 3 [])] ''/a''"

text \<open>
  A sub-app mounted at \<^verbatim>\<open>/adm\<close> whose only layer is mounted at \<^verbatim>\<open>/b\<close>, followed by a
  handler that answers.
\<close>

definition nested :: server where
  "nested = Server ''/'' [Layer ''/adm'' (App (Server ''/adm'' [Layer ''/b'' (Fn 2 [])])),
                          Layer [] (Fn 3 [])]"

definition nested_served :: state where
  "nested_served = the (serve parseUrl_pathname 5 nested (request ''/adm/x'' None))"

subsection \<open>Two traversals, and the order of invocations\<close>

text \<open>
  Two states agree when they differ at most in \<^verbatim>\<open>req.originalUrl\<close>, the one field of the
  request that the engine writes and never reads back into a decision.
\<close>

definition agree :: "state \<Rightarrow> state \<Rightarrow> bool" where
  "agree a b \<longleftrightarrow> url a = url b \<and> frames a = frames b \<and> queue a = queue b \<and> trace a = trace b"

definition agree_result :: "jsval option \<times> state \<Rightarrow> jsval option \<times> state \<Rightarrow> bool" where
  "agree_result x y \<longleftrightarrow> fst x = fst y \<and> agree (snd x) (snd y)"

text \<open>
  Two events are in order when, if both are invocations of layers of one traversal,
  the first is of the layer with the smaller index.
\<close>

definition in_order :: "event \<Rightarrow> event \<Rightarrow> bool" where
  "in_order e1 e2 =
     (case e1 of
        Invoked t1 i1 a1 v1 as1 u1 \<Rightarrow>
          (case e2 of
             Invoked t2 i2 a2 v2 as2 u2 \<Rightarrow> t1 = t2 \<longrightarrow> i1 < i2
           | Final v \<Rightarrow> True)
      | Final v \<Rightarrow> True)"

text \<open>
  An invocation lies behind the index of its traversal, by more than \<open>d\<close>.  In an
  ordered state all invocations recorded do and the trace is in order; \<open>ordered_taken\<close>
  is the same when traversal \<open>fid\<close> has taken a layer and not yet invoked it.
\<close>

definition behind :: "(nat \<Rightarrow> nat) \<Rightarrow> state \<Rightarrow> event \<Rightarrow> bool" where
  "behind d st e =
     (case e of
        Invoked t i a v as u \<Rightarrow> t < length (frames st) \<and> i + d t < index (frames st ! t)
      | Final v \<Rightarrow> True)"

definition ordered_state :: "state \<Rightarrow> bool" where
  "ordered_state st \<longleftrightarrow>
     (\<forall>e \<in> set (trace st). behind (\<lambda>t. 0) st e) \<and> sorted_wrt in_order (trace st)"

definition ordered_taken :: "nat \<Rightarrow> state \<Rightarrow> bool" where
  "ordered_taken fid st \<longleftrightarrow>
     fid < length (frames st) \<and> 0 < index (frames st ! fid)
     \<and> (\<forall>e \<in> set (trace st). behind (\<lambda>t. if t = fid then Suc 0 else 0) st e)
     \<and> sorted_wrt in_order (trace st)"

section \<open>Properties\<close>

subsection \<open>Scripts\<close>

lemma exec_append:
  "exec pn n (xs @ ys) fid st =
     (case exec pn n xs fid st of
        None \<Rightarrow> None
      | Some (None, st') \<Rightarrow> exec pn n ys fid st'
      | Some (Some e, st') \<Rightarrow> Some (Some e, st'))"
  by (induction xs arbitrary: st) (auto split: cmd.splits option.splits)

lemma exec_throw_as_next:
  "exec pn n (pre @ Throw e # rest) fid st =
     (case exec pn n pre fid st of
        None \<Rightarrow> None
      | Some (None, st') \<Rightarrow> Some (Some e, st')
      | Some (Some e', st') \<Rightarrow> Some (Some e', st'))"
  by (simp add: exec_append split: option.splits)

lemma exec_call_next_last:
  "exec pn n (pre @ [CallNext e]) fid st =
     (case exec pn n pre fid st of
        None \<Rightarrow> None
      | Some (None, st') \<Rightarrow>
          (case next' pn n fid e st' of None \<Rightarrow> None | Some s \<Rightarrow> Some (None, s))
      | Some (Some e', st') \<Rightarrow> Some (Some e', st'))"
  by (simp add: exec_append split: option.splits)

text \<open>What \<^verbatim>\<open>call\<close> does with the outcome of a script is the same for both endings.\<close>

lemma catch_throw:
  "(case exec pn n (pre @ Throw e # rest) fid s of
      None \<Rightarrow> None
    | Some (None, st') \<Rightarrow> Some st'
    | Some (Some e', st') \<Rightarrow> next' pn n fid e' st') =
   (case exec pn n (pre @ [CallNext e]) fid s of
      None \<Rightarrow> None
    | Some (None, st') \<Rightarrow> Some st'
    | Some (Some e', st') \<Rightarrow> next' pn n fid e' st')"
  by (simp add: exec_throw_as_next exec_call_next_last split: option.splits)

subsection \<open>Faults thrown by a handler\<close>

text \<open>
  Claim C4.  A value thrown by a handler is caught by \<^verbatim>\<open>call\<close> and given to the
  continuation of the same traversal: a handler whose script throws \<open>e\<close> at some point
  comes to the same as the handler that calls \<^verbatim>\<open>next(e)\<close> at that point and stops.
  This holds whatever the declared length is, so for a normal handler and for an error
  handler, where \<open>e\<close> takes the place of the error that was being propagated; and for
  an Endpoint.
\<close>

theorem C4_throw_is_next:
  "call pn n (Fn len (pre @ Throw e # rest)) rt err fid st =
     call pn n (Fn len (pre @ [CallNext e])) rt err fid st
   \<and> call pn n (Endpoint (pre @ Throw e # rest)) rt err fid st =
     call pn n (Endpoint (pre @ [CallNext e])) rt err fid st"
  by (simp only: call.simps invoke.simps arity_of.simps catch_throw simp_thms)

text \<open>
  An error handler that throws \<^verbatim>\<open>b\<close> while \<^verbatim>\<open>a\<close> is propagated: the terminal continuation
  is scheduled with \<^verbatim>\<open>b\<close>.
\<close>

theorem C4_witness:
  "call parseUrl_pathname 2 (Fn 4 [Throw (JError ''b'')]) [] (JError ''a'') 0
      (on_layer [Layer [] (Fn 4 [Throw (JError ''b'')])] ''/a'')
   = call parseUrl_pathname 2 (Fn 4 [CallNext (JError ''b'')]) [] (JError ''a'') 0
      (on_layer [Layer [] (Fn 4 [Throw (JError ''b'')])] ''/a'')
   \<and> map_option queue
        (call parseUrl_pathname 2 (Fn 4 [Throw (JError ''b'')]) [] (JError ''a'') 0
          (on_layer [Layer [] (Fn 4 [Throw (JError ''b'')])] ''/a''))
       = Some [(KOut, JError ''b'')]"
proof -
  have "map_option queue
        (call parseUrl_pathname 2 (Fn 4 [Throw (JError ''b'')]) [] (JError ''a'') 0
          (on_layer [Layer [] (Fn 4 [Throw (JError ''b'')])] ''/a''))
       = Some [(KOut, JError ''b'')]"
    by code_simp
  with C4_throw_is_next
    [of parseUrl_pathname 2 4 "[]" "JError ''b''" "[]" "[]" "JError ''a''" 0
        "on_layer [Layer [] (Fn 4 [Throw (JError ''b'')])] ''/a''"]
  show ?thesis by simp
qed

subsection \<open>Functions that declare no parameter\<close>

text \<open>
  Claim C10.  A function that declares no parameter has no arity (its length 0 is
  falsy and it is no Endpoint), so \<^verbatim>\<open>call\<close> never invokes it, whether an error is
  propagated or not: it goes on to \<^verbatim>\<open>next\<close> with the same error value.
\<close>

theorem C10_zero_arity_never_invoked:
  "arity_of (Fn 0 body) = None
   \<and> call pn n (Fn 0 body) rt err fid st = next' pn n fid err st"
  by (simp add: call.simps arity_lt4_def)

theorem C10_witness:
  "call parseUrl_pathname 2 (Fn 0 [CallNext Undefined]) [] (JError ''boom'') 0
      (on_layer [Layer [] (Fn 0 [CallNext Undefined])] ''/a'')
   = Some ((on_layer [Layer [] (Fn 0 [CallNext Undefined])] ''/a'')
             \<lparr>frames :=
                [(new_frame [Layer [] (Fn 0 [CallNext Undefined])] KOut ''/a'')\<lparr>index := 2\<rparr>],
              queue := [(KOut, JError ''boom'')]\<rparr>)"
  using C10_zero_arity_never_invoked
    [of "[CallNext Undefined]" parseUrl_pathname 2 "[]" "JError ''boom''" 0
        "on_layer [Layer [] (Fn 0 [CallNext Undefined])] ''/a''"]
  by (simp add: on_layer_def new_frame_def getProtohost_def next'.simps eval_nat_numeral
        restore_url_def advance_def set_frame_def defer'_def)

subsection \<open>Registration\<close>

lemma last_strip_trailing_slash:
  assumes "\<not> (\<exists>p. r = p @ ''//'')"
  shows "strip_trailing_slash r = [] \<or> last (strip_trailing_slash r) \<noteq> CHR ''/''"
proof (cases "r \<noteq> [] \<and> last r = CHR ''/''")
  case False
  then show ?thesis by (auto simp: strip_trailing_slash_def)
next
  case True
  then have r: "r = butlast r @ ''/''" by (metis append_butlast_last_id)
  show ?thesis
  proof (cases "butlast r = []")
    case True
    with \<open>r \<noteq> [] \<and> last r = CHR ''/''\<close> show ?thesis by (simp add: strip_trailing_slash_def)
  next
    case False
    have "last (butlast r) \<noteq> CHR ''/''"
    proof
      assume "last (butlast r) = CHR ''/''"
      with False have "butlast r = butlast (butlast r) @ ''/''"
        by (metis append_butlast_last_id)
      with r have "r = butlast (butlast r) @ ''//''"
        by (metis append.assoc append_Cons append_Nil)
      with assms show False by blast
    qed
    with True show ?thesis by (simp add: strip_trailing_slash_def)
  qed
qed

text \<open>
  Claim C6, as stated: no stored mount path ends in a slash unless it is \<^verbatim>\<open>/\<close>, the
  root being left alone.  It fails: \<^verbatim>\<open>use('/a//', fn)\<close> stores \<^verbatim>\<open>/a/\<close>, and
  \<^verbatim>\<open>use('/', fn)\<close> stores the empty string.
\<close>

theorem C6_counterexample:
  "use (S ''/a//'') (Some (Fn 3 [])) createServer
     = Inr (Server ''/'' [Layer ''/a/'' (Fn 3 [])])
   \<and> use (S ''/'') (Some (Fn 3 [])) createServer
     = Inr (Server ''/'' [Layer [] (Fn 3 [])])"
  by (simp add: use_def wrap_def createServer_def strip_trailing_slash_def)

text \<open>
  Claim C6, amended.  Registration under a string appends one layer whose mount path
  is the given one without its last character when that is a slash.  The root \<^verbatim>\<open>/\<close> is
  stored as the empty string, and the stored mount path ends in no slash whenever the
  given one does not end in two.
\<close>

theorem C6_use_strips_one_slash:
  assumes "use (S r) fn this = Inr this'"
  shows "\<exists>h. stack this' = stack this @ [Layer (strip_trailing_slash r) h]
           \<and> strip_trailing_slash r = (if r \<noteq> [] \<and> last r = CHR ''/'' then butlast r else r)
           \<and> (r = ''/'' \<longrightarrow> strip_trailing_slash r = [])
           \<and> (\<not> (\<exists>p. r = p @ ''//'') \<longrightarrow>
                 strip_trailing_slash r = [] \<or> last (strip_trailing_slash r) \<noteq> CHR ''/'')"
proof -
  from assms obtain h where "stack this' = stack this @ [Layer (strip_trailing_slash r) h]"
    by (auto simp: use_def split: option.splits sum.splits)
  moreover
  have "strip_trailing_slash r = (if r \<noteq> [] \<and> last r = CHR ''/'' then butlast r else r)"
    by (simp add: strip_trailing_slash_def)
  moreover have "r = ''/'' \<longrightarrow> strip_trailing_slash r = []"
    by (simp add: strip_trailing_slash_def)
  ultimately show ?thesis using last_strip_trailing_slash by blast
qed

theorem C6_witness:
  "use (S ''/admin/'') (Some (Fn 3 [])) createServer
     = Inr (Server ''/'' [Layer ''/admin'' (Fn 3 [])])
   \<and> (\<exists>h. stack (Server ''/'' [Layer ''/admin'' (Fn 3 [])])
            = stack createServer @ [Layer ''/admin'' h])"
proof -
  have u: "use (S ''/admin/'') (Some (Fn 3 [])) createServer
     = Inr (Server ''/'' [Layer ''/admin'' (Fn 3 [])])"
    by (simp add: use_def wrap_def createServer_def strip_trailing_slash_def)
  from C6_use_strips_one_slash [OF u] u show ?thesis
    by (simp add: strip_trailing_slash_def)
qed

text \<open>
  Claim C7, as stated: when the first argument is no string, the stored mount path is
  \<^verbatim>\<open>/\<close>.  It fails: the default \<^verbatim>\<open>/\<close> loses its slash like any other path, and the
  layer is stored under the empty string.
\<close>

theorem C7_counterexample:
  "use (H (Fn 3 [])) None createServer = Inr (Server ''/'' [Layer [] (Fn 3 [])])
   \<and> route (Layer [] (Fn 3 [])) \<noteq> ''/''"
  by (simp add: use_def wrap_def createServer_def strip_trailing_slash_def)

text \<open>
  Claim C7, amended.  When the first argument is no string and registration returns,
  that argument is the handler, whatever the second argument is: the layer appended
  holds it (an \<^verbatim>\<open>http.Server\<close> replaced by its first listener, a sub-app given the
  route \<^verbatim>\<open>/\<close>), and its stored mount path is the empty string.
\<close>

theorem C7_default_route:
  assumes "use (H h) fn this = Inr this'"
  shows "stack this' = stack this @
           [Layer [] (case h of
                        HttpServer ls \<Rightarrow> hd ls
                      | App srv \<Rightarrow> App (Server ''/'' (stack srv))
                      | _ \<Rightarrow> h)]"
  using assms
  by (auto simp: use_def wrap_def strip_trailing_slash_def
           split: handle.splits sum.splits list.splits)

theorem C7_witness:
  "use (H (App (Server ''/x'' [Layer [] (Fn 2 [])]))) (Some (Fn 3 [])) createServer
     = Inr (Server ''/'' [Layer [] (App (Server ''/'' [Layer [] (Fn 2 [])]))])"
proof -
  have u: "use (H (App (Server ''/x'' [Layer [] (Fn 2 [])]))) (Some (Fn 3 [])) createServer
     = Inr (Server ''/'' [Layer [] (App (Server ''/'' [Layer [] (Fn 2 [])]))])"
    by (simp add: use_def wrap_def createServer_def strip_trailing_slash_def)
  from C7_default_route [OF u] u show ?thesis by simp
qed

subsection \<open>Matching a layer\<close>


lemma length_toLowerCase [simp]: "length (toLowerCase p) = length p"
  by (simp add: toLowerCase_def)

lemma next'_skip:
  assumes "fid < length (frames st)"
    and "f = frames st ! fid"
    and "index f < length (fstack f)"
    and "\<not> (prefix_ok (route (fstack f ! index f)) (pathname pn (restore_url f (url st)))
            \<and> boundary_ok (route (fstack f ! index f)) (pathname pn (restore_url f (url st))))"
  shows "next' pn (Suc n) fid err st =
           next' pn n fid err (set_frame fid (advance f) (restore_url f (url st)) st)"
  using assms by (auto simp: next'.simps Let_def)

lemma next'_exhausted:
  assumes "fid < length (frames st)"
    and "f = frames st ! fid"
    and "length (fstack f) \<le> index f"
  shows "next' pn (Suc n) fid err st =
           Some (defer' (fdone f) err (set_frame fid (advance f) (restore_url f (url st)) st))"
  using assms by (simp add: next'.simps Let_def)


lemma toLowerCase_latin1:
  "toLowerCase [CHR ''/'', CHR 0xC9, CHR ''/'', CHR ''X''] = [CHR ''/'', CHR 0xE9, CHR ''/'', CHR ''x'']
   \<and> toLowerCase [CHR 0xD7, CHR 0xDF, CHR 0xFF, CHR ''1''] = [CHR 0xD7, CHR 0xDF, CHR 0xFF, CHR ''1'']"
  by code_simp









subsection \<open>One call of \<^verbatim>\<open>next\<close> and of \<^verbatim>\<open>call\<close>\<close>

lemma next'_bad_frame:
  "length (frames st) \<le> fid \<Longrightarrow> next' pn n fid err st = None"
  by (cases n) (simp_all add: next'.simps)

lemma next'_match:
  assumes "fid < length (frames st)"
    and "f = frames st ! fid"
    and "index f < length (fstack f)"
    and "l = fstack f ! index f"
    and "u = restore_url f (url st)"
    and "prefix_ok (route l) (pathname pn u)"
    and "boundary_ok (route l) (pathname pn u)"
    and "trim (advance f) (route l) u = (f2, u2)"
  shows "next' pn (Suc n) fid err st =
           call pn n (handle l) (route l) err fid (set_frame fid f2 u2 st)"
  using assms by (simp add: next'.simps Let_def)

lemma call_error_handler:
  assumes "Boolean err" and "arity_of h = Some 4"
  shows "call pn n h rt err fid st =
           (case invoke pn n h fid
                   (log_event (invoked fid (Some 4) err (ErrReqResNext err) st) st) of
              None \<Rightarrow> None
            | Some (None, st') \<Rightarrow> Some st'
            | Some (Some e, st') \<Rightarrow> next' pn n fid e st')"
  using assms by (auto simp: call.simps Let_def)

lemma call_normal_handler:
  assumes "\<not> Boolean err" and "arity_lt4 (arity_of h)"
  shows "call pn n h rt err fid st =
           (case invoke pn n h fid
                   (log_event (invoked fid (arity_of h) err ReqResNext st) st) of
              None \<Rightarrow> None
            | Some (None, st') \<Rightarrow> Some st'
            | Some (Some e, st') \<Rightarrow> next' pn n fid e st')"
  using assms by (auto simp: call.simps Let_def)

lemma call_skip:
  assumes "\<not> (Boolean err \<and> arity_of h = Some 4)"
    and "\<not> (\<not> Boolean err \<and> arity_lt4 (arity_of h))"
  shows "call pn n h rt err fid st = next' pn n fid err st"
  using assms by (auto simp: call.simps Let_def)

subsection \<open>Invariants of a traversal\<close>

text \<open>
  A property \<open>I\<close> of the state that the elementary steps keep is kept by \<^verbatim>\<open>next\<close>, by the
  invocation of a handler and by \<^verbatim>\<open>handle\<close>.  \<open>Ic fid\<close> is what is known when \<^verbatim>\<open>call\<close> is
  entered, traversal \<open>fid\<close> having just taken a layer.
\<close>

lemma invariant_rule:
  fixes I :: "state \<Rightarrow> bool" and Ic :: "nat \<Rightarrow> state \<Rightarrow> bool"
  assumes adv: "\<And>st fid u. I st \<Longrightarrow> fid < length (frames st) \<Longrightarrow>
                  I (set_frame fid (advance (frames st ! fid)) u st)"
    and trm: "\<And>st fid rt u f2 u2. I st \<Longrightarrow> fid < length (frames st) \<Longrightarrow>
                  index (frames st ! fid) < length (fstack (frames st ! fid)) \<Longrightarrow>
                  trim (advance (frames st ! fid)) rt u = (f2, u2) \<Longrightarrow>
                  Ic fid (set_frame fid f2 u2 st)"
    and skp: "\<And>st fid. Ic fid st \<Longrightarrow> I st"
    and log: "\<And>st fid a err as. Ic fid st \<Longrightarrow> mode_guard a err as \<Longrightarrow>
                  I (log_event (invoked fid a err as st) st)"
    and url: "\<And>st u. I st \<Longrightarrow> I (st\<lparr>url := u\<rparr>)"
    and dfr: "\<And>st k v. I st \<Longrightarrow> I (defer' k v st)"
    and new: "\<And>st stk out. I st \<Longrightarrow>
                  I ((store_originalUrl st)
                       \<lparr>frames := frames (store_originalUrl st) @ [new_frame stk out (url st)]\<rparr>)"
  shows "I st \<Longrightarrow> next' pn n fid err st = Some st' \<Longrightarrow> I st'"
    and "Ic fid st \<Longrightarrow> call pn n h rt err fid st = Some st' \<Longrightarrow> I st'"
    and "I st \<Longrightarrow> invoke pn n h fid st = Some (r, st') \<Longrightarrow> I st'"
    and "I st \<Longrightarrow> exec pn n cs fid st = Some (r, st') \<Longrightarrow> I st'"
    and "I st \<Longrightarrow> handle' pn n stk out st = Some st' \<Longrightarrow> I st'"
proof (induction pn n fid err st and pn n h rt err fid st and pn n h fid st
         and pn n cs fid st and pn n stk out st
       arbitrary: st' and st' and r st' and r st' and st'
       rule: next'_call_invoke_exec_handle'.induct)
  case (1 pn fid err st)
  then show ?case by simp
next
  case (2 pn n fid err st)
  define f where "f = frames st ! fid"
  define u where "u = restore_url f (url st)"
  define st1 where "st1 = set_frame fid (advance f) u st"
  have nfid: "\<not> length (frames st) \<le> fid"
    using "2.prems"(2) next'_bad_frame [of st fid pn "Suc n" err] by auto
  then have fid: "fid < length (frames st)" by simp
  have I1: "I st1" unfolding st1_def f_def using "2.prems"(1) fid by (rule adv)
  show ?case
  proof (cases "length (fstack f) \<le> index f")
    case True
    from next'_exhausted [OF fid f_def True, of pn n err] "2.prems"(2)
    have "st' = defer' (fdone f) err st1" by (simp add: st1_def u_def)
    with I1 show ?thesis by (simp add: dfr)
  next
    case False
    then have in_range: "index f < length (fstack f)" by simp
    define l where "l = fstack f ! index f"
    define p where "p = pathname pn u"
    show ?thesis
    proof (cases "prefix_ok (route l) p")
      case False
      then have "\<not> (prefix_ok (route l) p \<and> boundary_ok (route l) p)" by simp
      from next'_skip [OF fid f_def in_range this [unfolded l_def p_def u_def], of n err]
        "2.prems"(2)
      have run: "next' pn n fid err st1 = Some st'" by (simp add: st1_def u_def)
      from "2.IH"(1) [OF nfid f_def u_def st1_def \<open>\<not> length (fstack f) \<le> index f\<close>
          l_def p_def refl False I1 run]
      show ?thesis .
    next
      case True
      note pre = this
      then have nnpre: "\<not> \<not> prefix_ok (route l) p" by simp
      show ?thesis
      proof (cases "boundary_ok (route l) p")
        case False
        with pre have "\<not> (prefix_ok (route l) p \<and> boundary_ok (route l) p)" by simp
        from next'_skip [OF fid f_def in_range this [unfolded l_def p_def u_def], of n err]
          "2.prems"(2)
        have run: "next' pn n fid err st1 = Some st'" by (simp add: st1_def u_def)
        from "2.IH"(2) [OF nfid f_def u_def st1_def \<open>\<not> length (fstack f) \<le> index f\<close>
            l_def p_def refl nnpre False I1 run]
        show ?thesis .
      next
        case True
        then have nnb: "\<not> \<not> boundary_ok (route l) p" by simp
        obtain f2 u2 where t: "trim (advance f) (route l) u = (f2, u2)" by force
        from next'_match [OF fid f_def in_range l_def u_def pre [unfolded p_def]
            True [unfolded p_def] t, of n err] "2.prems"(2)
        have run: "call pn n (handle l) (route l) err fid (set_frame fid f2 u2 st) = Some st'"
          by simp
        have Ic: "Ic fid (set_frame fid f2 u2 st)"
          using "2.prems"(1) fid in_range t unfolding f_def by (rule trm)
        from "2.IH"(3) [OF nfid f_def u_def st1_def \<open>\<not> length (fstack f) \<le> index f\<close>
            l_def p_def refl nnpre nnb refl t [symmetric] Ic run]
        show ?thesis .
      qed
    qed
  qed
next
  case (3 pn n h rt err fid st)
  show ?case
  proof (cases "Boolean err \<and> arity_of h = Some 4")
    case True
    define s where "s = log_event (invoked fid (arity_of h) err (ErrReqResNext err) st) st"
    have Is: "I s" unfolding s_def using "3.prems"(1) True
      by (intro log) (auto simp: mode_guard_def)
    from True have c: "call pn n h rt err fid st =
        (case invoke pn n h fid s of
              None \<Rightarrow> None
            | Some (None, st') \<Rightarrow> Some st'
            | Some (Some e, st') \<Rightarrow> next' pn n fid e st')"
      by (simp add: call_error_handler s_def)
    with "3.prems"(2) obtain r s' where
      inv: "invoke pn n h fid s = Some (r, s')"
      and res: "(case r of None \<Rightarrow> Some s' | Some e \<Rightarrow> next' pn n fid e s') = Some st'"
      by (auto split: option.splits)
    from "3.IH"(1) [OF refl refl True Is [unfolded s_def] inv [unfolded s_def]]
    have Is': "I s'" .
    show ?thesis
    proof (cases r)
      case None
      with res Is' show ?thesis by simp
    next
      case (Some e)
      with res have run: "next' pn n fid e s' = Some st'" by simp
      from "3.IH"(2) [OF refl refl True inv [unfolded s_def] refl Some Is' run]
      show ?thesis .
    qed
  next
    case False
    note not_err = this
    show ?thesis
    proof (cases "\<not> Boolean err \<and> arity_lt4 (arity_of h)")
      case True
      define s where "s = log_event (invoked fid (arity_of h) err ReqResNext st) st"
      from True have "arity_of h \<noteq> Some 4" by (auto simp: arity_lt4_def)
      then have Is: "I s" unfolding s_def using "3.prems"(1) True
        by (intro log) (auto simp: mode_guard_def)
      from True have c: "call pn n h rt err fid st =
        (case invoke pn n h fid s of
              None \<Rightarrow> None
            | Some (None, st') \<Rightarrow> Some st'
            | Some (Some e, st') \<Rightarrow> next' pn n fid e st')"
        by (simp add: call_normal_handler s_def)
      with "3.prems"(2) obtain r s' where
        inv: "invoke pn n h fid s = Some (r, s')"
        and res: "(case r of None \<Rightarrow> Some s' | Some e \<Rightarrow> next' pn n fid e s') = Some st'"
        by (auto split: option.splits)
      from "3.IH"(3) [OF refl refl not_err True Is [unfolded s_def] inv [unfolded s_def]]
      have Is': "I s'" .
      show ?thesis
      proof (cases r)
        case None
        with res Is' show ?thesis by simp
      next
        case (Some e)
        with res have run: "next' pn n fid e s' = Some st'" by simp
        from "3.IH"(4) [OF refl refl not_err True inv [unfolded s_def] refl Some Is' run]
        show ?thesis .
      qed
    next
      case False
      from call_skip [OF not_err False] "3.prems"(2)
      have run: "next' pn n fid err st = Some st'" by simp
      from "3.IH"(5) [OF refl refl not_err False skp [OF "3.prems"(1)] run]
      show ?thesis .
    qed
  qed
next
  case (4 pn n len body fid st)
  then show ?case by simp
next
  case (5 pn n body fid st)
  then show ?case by simp
next
  case (6 pn n srv fid st)
  from "6.prems"(2) have "handle' pn n (stack srv) (KNext fid) st = Some st'"
    by (simp split: option.splits)
  with "6.IH" "6.prems"(1) show ?case .
next
  case (7 pn n ls fid st)
  then show ?case by simp
next
  case (8 pn n fid st)
  then show ?case by simp
next
  case (9 pn n c cs fid st)
  show ?case
  proof (cases c)
    case (SetUrl x)
    with "9.prems"(2) have "exec pn n cs fid (st\<lparr>url := x\<rparr>) = Some (r, st')" by simp
    from "9.IH"(1) [OF SetUrl url [OF "9.prems"(1)] this] show ?thesis .
  next
    case (CallNext v)
    with "9.prems"(2) obtain s where
      run: "next' pn n fid v st = Some s" and rest: "exec pn n cs fid s = Some (r, st')"
      by (auto split: option.splits)
    from "9.IH"(2) [OF CallNext "9.prems"(1) run] have "I s" .
    from "9.IH"(3) [OF CallNext run this rest] show ?thesis .
  next
    case (DeferNext v)
    with "9.prems"(2) have "exec pn n cs fid (defer' (KNext fid) v st) = Some (r, st')"
      by simp
    from "9.IH"(4) [OF DeferNext dfr [OF "9.prems"(1)] this] show ?thesis .
  next
    case (Throw v)
    with "9.prems" show ?thesis by simp
  qed
next
  case (10 pn n stk out st)
  from "10.prems"(2)
  have "next' pn n (length (frames (store_originalUrl st))) Undefined
          ((store_originalUrl st)
             \<lparr>frames := frames (store_originalUrl st) @ [new_frame stk out (url st)]\<rparr>)
        = Some st'"
    by (simp add: handle'.simps Let_def)
  from "10.IH" [OF refl refl new [OF "10.prems"(1)] this] show ?case .
qed

lemma run_queue_invariant:
  fixes I :: "state \<Rightarrow> bool"
  assumes step: "\<And>st k fid err st'. I st \<Longrightarrow> next' pn k fid err st = Some st' \<Longrightarrow> I st'"
    and pop: "\<And>st q. I st \<Longrightarrow> I (st\<lparr>queue := q\<rparr>)"
    and fin: "\<And>st v. I st \<Longrightarrow> I (log_event (Final v) st)"
  shows "I st \<Longrightarrow> run_queue pn n st = Some st' \<Longrightarrow> I st'"
proof (induction n arbitrary: st)
  case 0
  then show ?case by (simp split: if_splits)
next
  case (Suc n)
  show ?case
  proof (cases "queue st")
    case Nil
    with Suc.prems show ?thesis by simp
  next
    case (Cons kv q)
    obtain k v where kv: "kv = (k, v)" by force
    have Iq: "I (st\<lparr>queue := q\<rparr>)" using Suc.prems(1) by (rule pop)
    show ?thesis
    proof (cases k)
      case KOut
      with Cons kv Suc.prems(2)
      have "run_queue pn n (log_event (Final v) (st\<lparr>queue := q\<rparr>)) = Some st'" by simp
      with Suc.IH fin [OF Iq] show ?thesis by blast
    next
      case (KNext fid)
      with Cons kv Suc.prems(2) obtain s where
        run: "next' pn (Suc n) fid v (st\<lparr>queue := q\<rparr>) = Some s"
        and rest: "run_queue pn n s = Some st'"
        by (auto split: option.splits)
      from step [OF Iq run] have "I s" .
      with Suc.IH rest show ?thesis by blast
    qed
  qed
qed

subsection \<open>Arity routing\<close>

lemma modes_next':
  "list_all mode_ok (trace st) \<Longrightarrow> next' pn n fid err st = Some st' \<Longrightarrow>
     list_all mode_ok (trace st')"
  by (rule invariant_rule(1)
        [where I = "\<lambda>s. list_all mode_ok (trace s)" and Ic = "\<lambda>_ s. list_all mode_ok (trace s)"])
     (simp_all add: set_frame_def log_event_def invoked_def mode_ok_def defer'_def
        store_originalUrl_def)

lemma modes_handle':
  "list_all mode_ok (trace st) \<Longrightarrow> handle' pn n stk out st = Some st' \<Longrightarrow>
     list_all mode_ok (trace st')"
  by (rule invariant_rule(5)
        [where I = "\<lambda>s. list_all mode_ok (trace s)" and Ic = "\<lambda>_ s. list_all mode_ok (trace s)"])
     (simp_all add: set_frame_def log_event_def invoked_def mode_ok_def defer'_def
        store_originalUrl_def)

lemma modes_run_queue:
  "list_all mode_ok (trace st) \<Longrightarrow> run_queue pn n st = Some st' \<Longrightarrow>
     list_all mode_ok (trace st')"
  by (rule run_queue_invariant [where I = "\<lambda>s. list_all mode_ok (trace s)"])
     (auto simp: log_event_def mode_ok_def intro: modes_next')

lemma modes_serve:
  assumes "list_all mode_ok (trace st)" and "serve pn n srv st = Some st'"
  shows "list_all mode_ok (trace st')"
proof -
  from assms(2) obtain s where h: "handle' pn n (stack srv) KOut st = Some s"
    and q: "run_queue pn n s = Some st'"
    by (auto simp: serve_def Server_call_def split: option.splits)
  from modes_handle' [OF assms(1) h] have "list_all mode_ok (trace s)" .
  from modes_run_queue [OF this q] show ?thesis .
qed

text \<open>
  Claim C1.  In every traversal, whatever the registry, the handlers' scripts and the
  request: a handler whose arity is 4 is invoked only while a truthy error value \<open>e\<close>
  is propagated, and it is given \<open>e\<close> as its first argument; any other handler that is
  invoked has an arity below 4 and is invoked only while the value propagated is falsy
  (\<^verbatim>\<open>Boolean(err)\<close> is how \<^verbatim>\<open>call\<close> tells whether an error is propagated).  A handler
  whose arity fits neither case is not invoked: \<^verbatim>\<open>call\<close> is \<^verbatim>\<open>next\<close> with the same error
  value.
\<close>

theorem C1_arity_routing:
  assumes "serve pn n srv (request u orig) = Some st'"
    and "Invoked tid i a e as v \<in> set (trace st')"
  shows "(a = Some 4 \<longrightarrow> Boolean e \<and> as = ErrReqResNext e)
       \<and> (a \<noteq> Some 4 \<longrightarrow> arity_lt4 a \<and> \<not> Boolean e \<and> as = ReqResNext)
       \<and> (\<not> (Boolean err \<and> arity_of h = Some 4) \<and> \<not> (\<not> Boolean err \<and> arity_lt4 (arity_of h))
            \<longrightarrow> call pn k h rt err fid st = next' pn k fid err st)"
proof -
  have "list_all mode_ok (trace (request u orig))" by (simp add: request_def)
  from modes_serve [OF this assms(1)] assms(2)
  have "mode_ok (Invoked tid i a e as v)" by (simp add: list_all_iff)
  then show ?thesis using call_skip [of err h pn k rt fid st]
    by (auto simp: mode_ok_def mode_guard_def)
qed

text \<open>
  The registry of the spec: the first handler throws, the error handler is invoked
  with what was thrown and answers, the third handler is not invoked.
\<close>

theorem C1_witness:
  "serve parseUrl_pathname 4 abc (request ''/'' None) = Some abc_served
   \<and> trace abc_served =
       [Invoked 0 0 (Some 3) Undefined ReqResNext ''/'',
        Invoked 0 1 (Some 4) (JError ''x'') (ErrReqResNext (JError ''x'')) ''/'']
   \<and> Boolean (JError ''x'')
   \<and> call parseUrl_pathname 1 (Fn 4 []) [] Undefined 0 (on_layer (stack abc) ''/'')
       = next' parseUrl_pathname 1 0 Undefined (on_layer (stack abc) ''/'')"
proof -
  have run: "serve parseUrl_pathname 4 abc (request ''/'' None) = Some abc_served"
    by code_simp
  have tr: "trace abc_served =
       [Invoked 0 0 (Some 3) Undefined ReqResNext ''/'',
        Invoked 0 1 (Some 4) (JError ''x'') (ErrReqResNext (JError ''x'')) ''/'']"
    by code_simp
  then have mem: "Invoked 0 1 (Some 4) (JError ''x'') (ErrReqResNext (JError ''x'')) ''/''
      \<in> set (trace abc_served)" by simp
  from C1_arity_routing [OF run mem, of Undefined "Fn 4 []" 1 "[]" 0 "on_layer (stack abc) ''/''"]
    run tr
  show ?thesis by (simp add: arity_lt4_def)
qed

subsection \<open>The original url\<close>

lemma originalUrl_next':
  assumes "x \<noteq> []"
  shows "originalUrl st = Some x \<Longrightarrow> next' pn n fid err st = Some st' \<Longrightarrow>
           originalUrl st' = Some x"
  by (rule invariant_rule(1)
        [where I = "\<lambda>s. originalUrl s = Some x" and Ic = "\<lambda>_ s. originalUrl s = Some x"])
     (simp_all add: set_frame_def log_event_def defer'_def store_originalUrl_def assms)

lemma originalUrl_handle':
  assumes "originalUrl (store_originalUrl st) = Some x" and "x \<noteq> []"
    and "handle' pn n stk out st = Some st'"
  shows "originalUrl st' = Some x"
proof -
  let ?s = "(store_originalUrl st)
             \<lparr>frames := frames (store_originalUrl st) @ [new_frame stk out (url st)]\<rparr>"
  from assms(3) have "next' pn n (length (frames (store_originalUrl st))) Undefined ?s = Some st'"
    by (simp add: handle'.simps Let_def)
  moreover from assms(1) have "originalUrl ?s = Some x" by simp
  ultimately show ?thesis using originalUrl_next' [OF assms(2)] by blast
qed

lemma originalUrl_run_queue:
  assumes "x \<noteq> []"
  shows "originalUrl st = Some x \<Longrightarrow> run_queue pn n st = Some st' \<Longrightarrow>
           originalUrl st' = Some x"
  by (rule run_queue_invariant [where I = "\<lambda>s. originalUrl s = Some x"])
     (auto simp: log_event_def intro: originalUrl_next' [OF assms])

text \<open>
  Claim C9.  \<^verbatim>\<open>handle\<close> records \<^verbatim>\<open>req.url\<close> as the original url only when none is
  recorded: a non-empty original url found on entry is kept.  Once a non-empty value
  \<open>x\<close> is recorded, it is still there when that \<^verbatim>\<open>handle\<close> returns, and at the end of
  the whole traversal, whatever nested servers were entered in between.
\<close>

theorem C9_originalUrl_captured_once:
  assumes "originalUrl (store_originalUrl st) = Some x" and "x \<noteq> []"
  shows "(originalUrl st = None \<longrightarrow> x = url st)
       \<and> (\<forall>s. originalUrl st = Some s \<and> s \<noteq> [] \<longrightarrow> x = s)
       \<and> (\<forall>st'. handle' pn n stk out st = Some st' \<longrightarrow> originalUrl st' = Some x)
       \<and> (\<forall>st'. serve pn n srv st = Some st' \<longrightarrow> originalUrl st' = Some x)"
proof -
  have 1: "originalUrl st = None \<longrightarrow> x = url st"
    using assms(1) by (auto simp: store_originalUrl_def)
  have 2: "\<forall>s. originalUrl st = Some s \<and> s \<noteq> [] \<longrightarrow> x = s"
    using assms(1) by (auto simp: store_originalUrl_def)
  have 3: "\<forall>st'. handle' pn n stk out st = Some st' \<longrightarrow> originalUrl st' = Some x"
    using originalUrl_handle' [OF assms] by blast
  have 4: "\<forall>st'. serve pn n srv st = Some st' \<longrightarrow> originalUrl st' = Some x"
  proof (intro allI impI)
    fix st' assume "serve pn n srv st = Some st'"
    then obtain s where h: "handle' pn n (stack srv) KOut st = Some s"
      and q: "run_queue pn n s = Some st'"
      by (auto simp: serve_def Server_call_def split: option.splits)
    from originalUrl_handle' [OF assms h] have "originalUrl s = Some x" .
    from originalUrl_run_queue [OF assms(2) this q] show "originalUrl st' = Some x" .
  qed
  from 1 2 3 4 show ?thesis by blast
qed

text \<open>
  The sub-app is entered with \<^verbatim>\<open>req.url\<close> trimmed to \<^verbatim>\<open>/x\<close>; the original url stays
  \<^verbatim>\<open>/adm/x\<close>.
\<close>

theorem C9_witness:
  "serve parseUrl_pathname 5 nested (request ''/adm/x'' None) = Some nested_served
   \<and> originalUrl nested_served = Some ''/adm/x''
   \<and> map ev_url (trace nested_served) = [''/x'', ''/adm/x'']"
proof -
  have run: "serve parseUrl_pathname 5 nested (request ''/adm/x'' None) = Some nested_served"
    by code_simp
  have o: "originalUrl (store_originalUrl (request ''/adm/x'' None)) = Some ''/adm/x''"
    by code_simp
  have ne: "''/adm/x'' \<noteq> []" by simp
  have tr: "map ev_url (trace nested_served) = [''/x'', ''/adm/x'']" by code_simp
  from C9_originalUrl_captured_once [OF o ne, of parseUrl_pathname 5 "[]" KOut nested] run tr
  show ?thesis by blast
qed

subsection \<open>Exhaustion\<close>

lemma run_queue_empty: "queue st = [] \<Longrightarrow> run_queue pn n st = Some st"
  by (cases n) simp_all

lemma restore_url_idle: "removed f = [] \<Longrightarrow> \<not> slashAdded f \<Longrightarrow> restore_url f u = u"
  by (simp add: restore_url_def)

lemma next'_all_mismatch:
  assumes "k = length (fstack (frames st ! fid)) - index (frames st ! fid)"
    and "fid < length (frames st)"
    and "removed (frames st ! fid) = []" and "\<not> slashAdded (frames st ! fid)"
    and "\<forall>l \<in> set (drop (index (frames st ! fid)) (fstack (frames st ! fid))).
           \<not> (prefix_ok (route l) (pathname pn (url st))
              \<and> boundary_ok (route l) (pathname pn (url st)))"
    and "k < n"
  shows "\<exists>st'. next' pn n fid err st = Some st' \<and> trace st' = trace st
           \<and> queue st' = queue st @ [(fdone (frames st ! fid), err)]
           \<and> url st' = url st \<and> originalUrl st' = originalUrl st"
  using assms
proof (induction k arbitrary: st n)
  case 0
  then obtain m where n: "n = Suc m" by (cases n) auto
  from 0 have ex: "length (fstack (frames st ! fid)) \<le> index (frames st ! fid)" by simp
  from next'_exhausted [OF "0.prems"(2) refl ex, of pn m err] n
    restore_url_idle [OF "0.prems"(3,4)]
  show ?case by (simp add: defer'_def set_frame_def)
next
  case (Suc k)
  then obtain m where n: "n = Suc m" and km: "k < m" by (cases n) auto
  let ?f = "frames st ! fid"
  let ?st1 = "set_frame fid (advance ?f) (url st) st"
  from Suc.prems(1) have in_range: "index ?f < length (fstack ?f)" by simp
  have u: "restore_url ?f (url st) = url st"
    using Suc.prems(3,4) by (rule restore_url_idle)
  from in_range have "fstack ?f ! index ?f \<in> set (drop (index ?f) (fstack ?f))"
    by (metis Cons_nth_drop_Suc list.set_intros(1))
  with Suc.prems(5)
  have "\<not> (prefix_ok (route (fstack ?f ! index ?f)) (pathname pn (restore_url ?f (url st)))
          \<and> boundary_ok (route (fstack ?f ! index ?f)) (pathname pn (restore_url ?f (url st))))"
    unfolding u by blast
  from next'_skip [OF Suc.prems(2) refl in_range this, of m err] n u
  have step: "next' pn n fid err st = next' pn m fid err ?st1" by simp
  have f1: "frames ?st1 ! fid = advance ?f"
    using Suc.prems(2) by (simp add: set_frame_def)
  have idx: "index (frames ?st1 ! fid) = Suc (index ?f)"
    and stk: "fstack (frames ?st1 ! fid) = fstack ?f"
    and rem: "removed (frames ?st1 ! fid) = []"
    and sla: "\<not> slashAdded (frames ?st1 ! fid)"
    and fdn: "fdone (frames ?st1 ! fid) = fdone ?f"
    using Suc.prems(2) by (simp_all add: set_frame_def advance_def)
  have url1: "url ?st1 = url st" by (simp add: set_frame_def)
  have "set (drop (Suc (index ?f)) (fstack ?f)) \<subseteq> set (drop (index ?f) (fstack ?f))"
    using set_drop_subset_set_drop [of "index ?f" "Suc (index ?f)" "fstack ?f"] by simp
  with Suc.prems(5) have mis: "\<forall>l \<in> set (drop (index (frames ?st1 ! fid)) (fstack (frames ?st1 ! fid))).
           \<not> (prefix_ok (route l) (pathname pn (url ?st1))
              \<and> boundary_ok (route l) (pathname pn (url ?st1)))"
    unfolding idx stk url1 by blast
  have "\<exists>st'. next' pn m fid err ?st1 = Some st' \<and> trace st' = trace ?st1
           \<and> queue st' = queue ?st1 @ [(fdone (frames ?st1 ! fid), err)]
           \<and> url st' = url ?st1 \<and> originalUrl st' = originalUrl ?st1"
  proof (rule Suc.IH [OF _ _ _ _ mis km])
    show "k = length (fstack (frames ?st1 ! fid)) - index (frames ?st1 ! fid)"
      using Suc.prems(1) unfolding idx stk by simp
    show "fid < length (frames ?st1)" using Suc.prems(2) by (simp add: set_frame_def)
    show "removed (frames ?st1 ! fid) = []" by (rule rem)
    show "\<not> slashAdded (frames ?st1 ! fid)" by (rule sla)
  qed
  moreover have "trace ?st1 = trace st" "queue ?st1 = queue st"
    "originalUrl ?st1 = originalUrl st"
    by (simp_all add: set_frame_def)
  ultimately show ?case unfolding step fdn url1 by simp
qed

lemma serve_all_mismatch:
  assumes mis: "\<forall>l \<in> set (stack srv).
           \<not> (prefix_ok (route l) (pathname pn u) \<and> boundary_ok (route l) (pathname pn u))"
    and fuel: "length (stack srv) < m"
  shows "\<exists>s1 s2. Server_call pn m srv (request u orig) = Some s1
           \<and> trace s1 = [] \<and> queue s1 = [(KOut, Undefined)]
           \<and> serve pn m srv (request u orig) = Some s2
           \<and> trace s2 = [Final Undefined] \<and> queue s2 = []"
proof -
  let ?r = "store_originalUrl (request u orig)"
  let ?st0 = "?r\<lparr>frames := frames ?r @ [new_frame (stack srv) KOut (url (request u orig))]\<rparr>"
  have fr: "frames ?st0 = [new_frame (stack srv) KOut u]"
    by (simp add: request_def store_originalUrl_def)
  have u0: "url ?st0 = u" and t0: "trace ?st0 = []" and q0: "queue ?st0 = []"
    by (simp_all add: request_def store_originalUrl_def)
  have f0: "frames ?st0 ! 0 = new_frame (stack srv) KOut u" by (simp add: fr)
  have h: "Server_call pn m srv (request u orig) = next' pn m 0 Undefined ?st0"
    by (simp add: Server_call_def handle'.simps Let_def request_def store_originalUrl_def)
  have "\<exists>st'. next' pn m 0 Undefined ?st0 = Some st' \<and> trace st' = trace ?st0
           \<and> queue st' = queue ?st0 @ [(fdone (frames ?st0 ! 0), Undefined)]
           \<and> url st' = url ?st0 \<and> originalUrl st' = originalUrl ?st0"
  proof (rule next'_all_mismatch [OF refl])
    show "0 < length (frames ?st0)" by (simp add: fr)
    show "removed (frames ?st0 ! 0) = []" unfolding f0 by (simp add: new_frame_def)
    show "\<not> slashAdded (frames ?st0 ! 0)" unfolding f0 by (simp add: new_frame_def)
    show "\<forall>l\<in>set (drop (index (frames ?st0 ! 0)) (fstack (frames ?st0 ! 0))).
       \<not> (prefix_ok (route l) (pathname pn (url ?st0))
          \<and> boundary_ok (route l) (pathname pn (url ?st0)))"
      unfolding f0 u0 using mis by (simp add: new_frame_def)
    show "length (fstack (frames ?st0 ! 0)) - index (frames ?st0 ! 0) < m"
      unfolding f0 using fuel by (simp add: new_frame_def)
  qed
  then obtain s1 where s1: "next' pn m 0 Undefined ?st0 = Some s1"
    and t1: "trace s1 = []" and q1: "queue s1 = [(KOut, Undefined)]"
    unfolding f0 t0 q0 by (auto simp: new_frame_def)
  from fuel obtain m' where m: "m = Suc m'" by (cases m) auto
  let ?s2 = "log_event (Final Undefined) (s1\<lparr>queue := []\<rparr>)"
  have "run_queue pn m s1 = run_queue pn m' ?s2" by (simp add: m q1)
  also have "\<dots> = Some ?s2" by (rule run_queue_empty) (simp add: log_event_def)
  finally have "serve pn m srv (request u orig) = Some ?s2"
    by (simp add: serve_def h s1)
  moreover have "trace ?s2 = [Final Undefined]" "queue ?s2 = []"
    by (simp_all add: log_event_def t1)
  ultimately show ?thesis using h s1 t1 q1 by auto
qed

text \<open>
  Claim C5.  When \<^verbatim>\<open>next\<close> finds the index past the end of the stack, it hands one call
  of the traversal's \<^verbatim>\<open>done\<close>, with the error value it was given, to \<^verbatim>\<open>setImmediate\<close>
  and returns: nothing is invoked in that call of \<^verbatim>\<open>next\<close>.  The terminal continuation
  runs in a later turn, when its entry of the queue is reached.  For a server none of
  whose layers matches the request, the call of the server returns with nothing invoked
  and that one entry queued, and the turns that follow invoke the terminal continuation
  once, with no error; any bound above the number of layers is enough for this.
\<close>

theorem C5_exhaustion_defers:
  assumes "fid < length (frames st)"
    and "f = frames st ! fid"
    and "length (fstack f) \<le> index f"
    and "st1 = defer' (fdone f) err (set_frame fid (advance f) (restore_url f (url st)) st)"
  shows "next' pn (Suc n) fid err st = Some st1
       \<and> queue st1 = queue st @ [(fdone f, err)]
       \<and> trace st1 = trace st
       \<and> run_queue pn (Suc k) (s\<lparr>queue := (KOut, v) # q\<rparr>)
           = run_queue pn k (log_event (Final v) (s\<lparr>queue := q\<rparr>))
       \<and> (\<forall>srv u orig m.
            (\<forall>l \<in> set (stack srv).
                \<not> (prefix_ok (route l) (pathname pn u) \<and> boundary_ok (route l) (pathname pn u)))
            \<and> length (stack srv) < m \<longrightarrow>
            (\<exists>s1 s2. Server_call pn m srv (request u orig) = Some s1
               \<and> trace s1 = [] \<and> queue s1 = [(KOut, Undefined)]
               \<and> serve pn m srv (request u orig) = Some s2
               \<and> trace s2 = [Final Undefined] \<and> queue s2 = []))"
proof -
  have "next' pn (Suc n) fid err st = Some st1"
    using next'_exhausted [OF assms(1-3)] assms(4) by simp
  moreover have "queue st1 = queue st @ [(fdone f, err)]" "trace st1 = trace st"
    by (simp_all add: assms(4) defer'_def set_frame_def)
  moreover have "run_queue pn (Suc k) (s\<lparr>queue := (KOut, v) # q\<rparr>)
           = run_queue pn k (log_event (Final v) (s\<lparr>queue := q\<rparr>))"
    by simp
  ultimately show ?thesis using serve_all_mismatch by blast
qed

text \<open>
  A traversal past its only layer; \<open>adm\<close> asked for \<^verbatim>\<open>/administration\<close>; and the server
  with only an error handler, asked for \<^verbatim>\<open>/\<close>.
\<close>

theorem C5_witness:
  "next' parseUrl_pathname (Suc 0) 0 (JError ''e'') exhausted_state
     = Some (exhausted_state
               \<lparr>frames := [(new_frame [Layer [] (Fn 3 [])] KOut ''/a'')\<lparr>index := 2\<rparr>],
                queue := [(KOut, JError ''e'')]\<rparr>)
   \<and> (\<exists>s1 s2. Server_call parseUrl_pathname 2 adm (request ''/administration'' None) = Some s1
         \<and> trace s1 = [] \<and> queue s1 = [(KOut, Undefined)]
         \<and> serve parseUrl_pathname 2 adm (request ''/administration'' None) = Some s2
         \<and> trace s2 = [Final Undefined] \<and> queue s2 = [])
   \<and> map_option trace (serve parseUrl_pathname 2 err_only (request ''/'' None))
       = Some [Final Undefined]"
proof -
  let ?f = "frames exhausted_state ! 0"
  let ?st1 = "defer' (fdone ?f) (JError ''e'')
               (set_frame 0 (advance ?f) (restore_url ?f (url exhausted_state)) exhausted_state)"
  have 1: "0 < length (frames exhausted_state)" by code_simp
  have 3: "length (fstack ?f) \<le> index ?f" by code_simp
  have mis: "\<forall>l \<in> set (stack adm).
                \<not> (prefix_ok (route l) (pathname parseUrl_pathname ''/administration'')
                   \<and> boundary_ok (route l) (pathname parseUrl_pathname ''/administration''))"
    by code_simp
  have len: "length (stack adm) < 2" by code_simp
  have st1: "?st1 = exhausted_state
               \<lparr>frames := [(new_frame [Layer [] (Fn 3 [])] KOut ''/a'')\<lparr>index := 2\<rparr>],
                queue := [(KOut, JError ''e'')]\<rparr>"
    by code_simp
  have eo: "map_option trace (serve parseUrl_pathname 2 err_only (request ''/'' None))
       = Some [Final Undefined]" by code_simp
  from C5_exhaustion_defers [OF 1 refl 3 refl, of parseUrl_pathname 0 "JError ''e''"]
  have a: "next' parseUrl_pathname (Suc 0) 0 (JError ''e'') exhausted_state = Some ?st1"
    and b: "\<forall>srv u orig m.
            (\<forall>l \<in> set (stack srv).
                \<not> (prefix_ok (route l) (pathname parseUrl_pathname u)
                   \<and> boundary_ok (route l) (pathname parseUrl_pathname u)))
            \<and> length (stack srv) < m \<longrightarrow>
            (\<exists>s1 s2. Server_call parseUrl_pathname m srv (request u orig) = Some s1
               \<and> trace s1 = [] \<and> queue s1 = [(KOut, Undefined)]
               \<and> serve parseUrl_pathname m srv (request u orig) = Some s2
               \<and> trace s2 = [Final Undefined] \<and> queue s2 = [])"
    by blast+
  from b mis len
  have "\<exists>s1 s2. Server_call parseUrl_pathname 2 adm (request ''/administration'' None) = Some s1
         \<and> trace s1 = [] \<and> queue s1 = [(KOut, Undefined)]
         \<and> serve parseUrl_pathname 2 adm (request ''/administration'' None) = Some s2
         \<and> trace s2 = [Final Undefined] \<and> queue s2 = []" by blast
  with a st1 eo show ?thesis by simp
qed

subsection \<open>Restoring the url\<close>

text \<open>
  What \<^verbatim>\<open>next\<close> puts back is the mount path as it was registered, in front of what the
  trimming left.  The url comes back as it was when the text that was cut is the mount path
  letter for letter.
\<close>

lemma restore_after_trim:
  assumes "trim f rt u = (f2, u2)" and "rt \<noteq> []" and "rt \<noteq> ''/''"
    and "\<not> slashAdded f"
  shows "restore_url f2 u2 = protohost f @ rt @ drop (length (protohost f) + length rt) u"
  using assms by (auto simp: trim_def restore_url_def Let_def split: if_splits list.splits)

lemma restore_after_trim_exact:
  assumes "trim f rt (protohost f @ rt @ rest) = (f2, u2)" and "rt \<noteq> []" and "rt \<noteq> ''/''"
    and "\<not> slashAdded f"
  shows "restore_url f2 u2 = protohost f @ rt @ rest"
  using restore_after_trim [OF assms] by simp

text \<open>
  Claim C3 says that the layer after a trimmed one finds the url it would have found
  without the trimming.  The code matches the mount path without regard to case and
  puts back the mount path, not the text it removed: after the layer mounted at
  \<^verbatim>\<open>/adm\<close> has passed a request for \<^verbatim>\<open>/ADM/x\<close> on, the next layer finds \<^verbatim>\<open>/adm/x\<close>.
  With the first layer mounted at the root, nothing is trimmed and the next layer finds
  \<^verbatim>\<open>/ADM/x\<close>.
\<close>

theorem C3_restore_changes_case:
  "map_option (map ev_url \<circ> trace)
     (serve parseUrl_pathname 4
        (Server ''/'' [Layer ''/adm'' (Fn 3 [CallNext Undefined]), Layer [] (Fn 3 [])])
        (request ''/ADM/x'' None))
     = Some [''/x'', ''/adm/x'']
   \<and> map_option (map ev_url \<circ> trace)
     (serve parseUrl_pathname 4
        (Server ''/'' [Layer [] (Fn 3 [CallNext Undefined]), Layer [] (Fn 3 [])])
        (request ''/ADM/x'' None))
     = Some [''/ADM/x'', ''/ADM/x'']"
  by code_simp

subsection \<open>Traversals that differ in the original url\<close>

text \<open>
  From states that agree, every function of the engine returns states that agree, or
  reaches its bound in both.
\<close>

lemma agree_steps:
  "agree a b \<Longrightarrow> agree (set_frame fid f u a) (set_frame fid f u b)"
  "agree a b \<Longrightarrow> agree (defer' k v a) (defer' k v b)"
  "agree a b \<Longrightarrow> agree (log_event e a) (log_event e b)"
  "agree a b \<Longrightarrow> agree (a\<lparr>url := s\<rparr>) (b\<lparr>url := s\<rparr>)"
  "agree a b \<Longrightarrow> agree (a\<lparr>queue := q\<rparr>) (b\<lparr>queue := q\<rparr>)"
  "agree a b \<Longrightarrow> invoked fid x err as a = invoked fid x err as b"
  "agree a b \<Longrightarrow>
     agree ((store_originalUrl a)\<lparr>frames := frames (store_originalUrl a) @ [nf]\<rparr>)
           ((store_originalUrl b)\<lparr>frames := frames (store_originalUrl b) @ [nf]\<rparr>)"
  by (simp_all add: agree_def set_frame_def defer'_def log_event_def invoked_def
        store_originalUrl_def)

lemma agree_catch:
  assumes inv: "rel_option agree_result x y"
    and nxt: "\<And>e s' a'. y = Some (Some e, s') \<Longrightarrow> agree a' s' \<Longrightarrow>
                 rel_option agree (next' pn n fid e a') (next' pn n fid e s')"
  shows "rel_option agree
           (case x of None \<Rightarrow> None | Some (None, st') \<Rightarrow> Some st'
            | Some (Some e, st') \<Rightarrow> next' pn n fid e st')
           (case y of None \<Rightarrow> None | Some (None, st') \<Rightarrow> Some st'
            | Some (Some e, st') \<Rightarrow> next' pn n fid e st')"
proof (cases y)
  case None
  with inv show ?thesis by (cases x) simp_all
next
  case (Some ry)
  with inv obtain rx where x: "x = Some rx" and r: "agree_result rx ry"
    by (cases x) simp_all
  obtain r1 a' where rx: "rx = (r1, a')" by force
  obtain r2 s' where ry: "ry = (r2, s')" by force
  from r rx ry have eq: "r1 = r2" and ag: "agree a' s'" by (simp_all add: agree_result_def)
  show ?thesis
  proof (cases r2)
    case None
    with x Some rx ry eq ag show ?thesis by simp
  next
    case (Some e)
    from nxt [OF _ ag, of e] \<open>y = Some ry\<close> ry Some
    have "rel_option agree (next' pn n fid e a') (next' pn n fid e s')" by simp
    with x \<open>y = Some ry\<close> rx ry eq Some show ?thesis by simp
  qed
qed

lemma agree_rule:
  "agree a st \<Longrightarrow> rel_option agree (next' pn n fid err a) (next' pn n fid err st)"
  "agree a st \<Longrightarrow> rel_option agree (call pn n h rt err fid a) (call pn n h rt err fid st)"
  "agree a st \<Longrightarrow> rel_option agree_result (invoke pn n h fid a) (invoke pn n h fid st)"
  "agree a st \<Longrightarrow> rel_option agree_result (exec pn n cs fid a) (exec pn n cs fid st)"
  "agree a st \<Longrightarrow> rel_option agree (handle' pn n stk out a) (handle' pn n stk out st)"
proof (induction pn n fid err st and pn n h rt err fid st and pn n h fid st
         and pn n cs fid st and pn n stk out st
       arbitrary: a and a and a and a and a
       rule: next'_call_invoke_exec_handle'.induct)
  case (1 pn fid err st)
  show ?case by simp
next
  case (2 pn n fid err st)
  from "2.prems" have fr: "frames a = frames st" and ur: "url a = url st"
    by (simp_all add: agree_def)
  show ?case
  proof (cases "length (frames st) \<le> fid")
    case True
    then show ?thesis by (simp add: next'_bad_frame fr)
  next
    case False
    note nfid = this
    then have fid: "fid < length (frames st)" by simp
    then have fida: "fid < length (frames a)" by (simp add: fr)
    define f where "f = frames st ! fid"
    then have fa: "f = frames a ! fid" by (simp add: fr)
    define u where "u = restore_url f (url st)"
    then have ua: "u = restore_url f (url a)" by (simp add: ur)
    define st1 where "st1 = set_frame fid (advance f) u st"
    define a1 where "a1 = set_frame fid (advance f) u a"
    have ag1: "agree a1 st1" unfolding a1_def st1_def using "2.prems" by (rule agree_steps)
    show ?thesis
    proof (cases "length (fstack f) \<le> index f")
      case True
      from next'_exhausted [OF fid f_def True, of pn n err]
        next'_exhausted [OF fida fa True, of pn n err] ag1
      show ?thesis by (simp add: agree_steps a1_def st1_def u_def ur)
    next
      case False
      then have in_range: "index f < length (fstack f)" by simp
      define l where "l = fstack f ! index f"
      define p where "p = pathname pn u"
      show ?thesis
      proof (cases "prefix_ok (route l) p")
        case False
        then have no: "\<not> (prefix_ok (route l) p \<and> boundary_ok (route l) p)" by simp
        have s1: "next' pn (Suc n) fid err st = next' pn n fid err st1"
          using next'_skip [OF fid f_def in_range no [unfolded l_def p_def u_def], of n err]
          by (simp add: st1_def u_def)
        have s2: "next' pn (Suc n) fid err a = next' pn n fid err a1"
          using next'_skip [OF fida fa in_range no [unfolded l_def p_def ua], of n err]
          by (simp add: a1_def ua)
        from "2.IH"(1) [OF nfid f_def u_def st1_def \<open>\<not> length (fstack f) \<le> index f\<close>
            l_def p_def refl False ag1]
        show ?thesis unfolding s1 s2 .
      next
        case True
        note pre = this
        then have nnpre: "\<not> \<not> prefix_ok (route l) p" by simp
        show ?thesis
        proof (cases "boundary_ok (route l) p")
          case False
          with pre have no: "\<not> (prefix_ok (route l) p \<and> boundary_ok (route l) p)" by simp
          have s1: "next' pn (Suc n) fid err st = next' pn n fid err st1"
            using next'_skip [OF fid f_def in_range no [unfolded l_def p_def u_def], of n err]
            by (simp add: st1_def u_def)
          have s2: "next' pn (Suc n) fid err a = next' pn n fid err a1"
            using next'_skip [OF fida fa in_range no [unfolded l_def p_def ua], of n err]
            by (simp add: a1_def ua)
          from "2.IH"(2) [OF nfid f_def u_def st1_def \<open>\<not> length (fstack f) \<le> index f\<close>
              l_def p_def refl nnpre False ag1]
          show ?thesis unfolding s1 s2 .
        next
          case True
          then have nnb: "\<not> \<not> boundary_ok (route l) p" by simp
          obtain f2 u2 where t: "trim (advance f) (route l) u = (f2, u2)" by force
          have s1: "next' pn (Suc n) fid err st =
              call pn n (handle l) (route l) err fid (set_frame fid f2 u2 st)"
            by (rule next'_match [OF fid f_def in_range l_def u_def pre [unfolded p_def]
                  True [unfolded p_def] t])
          have s2: "next' pn (Suc n) fid err a =
              call pn n (handle l) (route l) err fid (set_frame fid f2 u2 a)"
            by (rule next'_match [OF fida fa in_range l_def ua pre [unfolded p_def]
                  True [unfolded p_def] t])
          have ag2: "agree (set_frame fid f2 u2 a) (set_frame fid f2 u2 st)"
            using "2.prems" by (rule agree_steps)
          from "2.IH"(3) [OF nfid f_def u_def st1_def \<open>\<not> length (fstack f) \<le> index f\<close>
              l_def p_def refl nnpre nnb refl t [symmetric] ag2]
          show ?thesis unfolding s1 s2 .
        qed
      qed
    qed
  qed
next
  case (3 pn n h rt err fid st)
  show ?case
  proof (cases "Boolean err \<and> arity_of h = Some 4")
    case True
    then have b: "Boolean err" and ar: "arity_of h = Some 4" by simp_all
    define ev where "ev = invoked fid (arity_of h) err (ErrReqResNext err) st"
    have eva: "invoked fid (Some 4) err (ErrReqResNext err) a = ev"
      unfolding ev_def ar using "3.prems" by (rule agree_steps)
    have ag: "agree (log_event ev a) (log_event ev st)" using "3.prems" by (rule agree_steps)
    have inv: "rel_option agree_result (invoke pn n h fid (log_event ev a))
                 (invoke pn n h fid (log_event ev st))"
      using "3.IH"(1) [OF refl refl True ag [unfolded ev_def]] by (simp add: ev_def)
    have "rel_option agree
           (case invoke pn n h fid (log_event ev a) of None \<Rightarrow> None
            | Some (None, st') \<Rightarrow> Some st' | Some (Some e, st') \<Rightarrow> next' pn n fid e st')
           (case invoke pn n h fid (log_event ev st) of None \<Rightarrow> None
            | Some (None, st') \<Rightarrow> Some st' | Some (Some e, st') \<Rightarrow> next' pn n fid e st')"
    proof (rule agree_catch [OF inv])
      fix e s' a'
      assume y: "invoke pn n h fid (log_event ev st) = Some (Some e, s')" and "agree a' s'"
      with "3.IH"(2) [OF refl refl True y [unfolded ev_def] refl refl]
      show "rel_option agree (next' pn n fid e a') (next' pn n fid e s')" by blast
    qed
    then show ?thesis
      unfolding call_error_handler [OF b ar] eva by (simp add: ev_def ar)
  next
    case False
    note not_err = this
    show ?thesis
    proof (cases "\<not> Boolean err \<and> arity_lt4 (arity_of h)")
      case True
      then have b: "\<not> Boolean err" and ar: "arity_lt4 (arity_of h)" by simp_all
      define ev where "ev = invoked fid (arity_of h) err ReqResNext st"
      have eva: "invoked fid (arity_of h) err ReqResNext a = ev"
        unfolding ev_def using "3.prems" by (rule agree_steps)
      have ag: "agree (log_event ev a) (log_event ev st)" using "3.prems" by (rule agree_steps)
      have inv: "rel_option agree_result (invoke pn n h fid (log_event ev a))
                 (invoke pn n h fid (log_event ev st))"
        using "3.IH"(3) [OF refl refl not_err True ag [unfolded ev_def]] by (simp add: ev_def)
      have "rel_option agree
           (case invoke pn n h fid (log_event ev a) of None \<Rightarrow> None
            | Some (None, st') \<Rightarrow> Some st' | Some (Some e, st') \<Rightarrow> next' pn n fid e st')
           (case invoke pn n h fid (log_event ev st) of None \<Rightarrow> None
            | Some (None, st') \<Rightarrow> Some st' | Some (Some e, st') \<Rightarrow> next' pn n fid e st')"
      proof (rule agree_catch [OF inv])
        fix e s' a'
        assume y: "invoke pn n h fid (log_event ev st) = Some (Some e, s')" and "agree a' s'"
        with "3.IH"(4) [OF refl refl not_err True y [unfolded ev_def] refl refl]
        show "rel_option agree (next' pn n fid e a') (next' pn n fid e s')" by blast
      qed
      then show ?thesis
        unfolding call_normal_handler [OF b ar] eva by (simp add: ev_def)
    next
      case False
      from "3.IH"(5) [OF refl refl not_err False "3.prems"]
      show ?thesis unfolding call_skip [OF not_err False] .
    qed
  qed
next
  case (4 pn n len body fid st)
  then show ?case by simp
next
  case (5 pn n body fid st)
  then show ?case by simp
next
  case (6 pn n srv fid st)
  from "6.IH" [OF "6.prems"]
  show ?case
    by (cases "handle' pn n (stack srv) (KNext fid) a";
        cases "handle' pn n (stack srv) (KNext fid) st")
       (simp_all add: agree_result_def)
next
  case (7 pn n ls fid st)
  then show ?case by (simp add: agree_result_def)
next
  case (8 pn n fid st)
  then show ?case by (simp add: agree_result_def)
next
  case (9 pn n c cs fid st)
  show ?case
  proof (cases c)
    case (SetUrl x)
    have "agree (a\<lparr>url := x\<rparr>) (st\<lparr>url := x\<rparr>)" using "9.prems" by (rule agree_steps)
    from "9.IH"(1) [OF SetUrl this] SetUrl show ?thesis by simp
  next
    case (CallNext v)
    from "9.IH"(2) [OF CallNext "9.prems"]
    have r: "rel_option agree (next' pn n fid v a) (next' pn n fid v st)" .
    show ?thesis
    proof (cases "next' pn n fid v st")
      case None
      with r have "next' pn n fid v a = None" by (cases "next' pn n fid v a") simp_all
      with None CallNext show ?thesis by simp
    next
      case (Some s')
      with r obtain a' where a': "next' pn n fid v a = Some a'" and ag: "agree a' s'"
        by (cases "next' pn n fid v a") simp_all
      from "9.IH"(3) [OF CallNext Some ag] CallNext Some a' show ?thesis by simp
    qed
  next
    case (DeferNext v)
    have "agree (defer' (KNext fid) v a) (defer' (KNext fid) v st)"
      using "9.prems" by (rule agree_steps)
    from "9.IH"(4) [OF DeferNext this] DeferNext show ?thesis by simp
  next
    case (Throw v)
    with "9.prems" show ?thesis by (simp add: agree_result_def)
  qed
next
  case (10 pn n stk out st)
  from "10.prems" have fr: "frames a = frames st" and ur: "url a = url st"
    by (simp_all add: agree_def)
  have len: "length (frames (store_originalUrl a)) = length (frames (store_originalUrl st))"
    by (simp add: store_originalUrl_def fr)
  have "agree ((store_originalUrl a)
                 \<lparr>frames := frames (store_originalUrl a) @ [new_frame stk out (url st)]\<rparr>)
              ((store_originalUrl st)
                 \<lparr>frames := frames (store_originalUrl st) @ [new_frame stk out (url st)]\<rparr>)"
    using "10.prems" by (rule agree_steps)
  from "10.IH" [OF refl refl this]
  show ?case by (simp add: handle'.simps Let_def len ur)
qed

lemma agree_run_queue:
  "agree a st \<Longrightarrow> rel_option agree (run_queue pn n a) (run_queue pn n st)"
proof (induction n arbitrary: a st)
  case 0
  then show ?case by (auto simp: agree_def)
next
  case (Suc n)
  from Suc.prems have q: "queue a = queue st" by (simp add: agree_def)
  show ?case
  proof (cases "queue st")
    case Nil
    with q Suc.prems show ?thesis by simp
  next
    case (Cons kv rest)
    obtain k v where kv: "kv = (k, v)" by force
    have ag: "agree (a\<lparr>queue := rest\<rparr>) (st\<lparr>queue := rest\<rparr>)"
      using Suc.prems by (rule agree_steps)
    show ?thesis
    proof (cases k)
      case KOut
      have "agree (log_event (Final v) (a\<lparr>queue := rest\<rparr>))
                  (log_event (Final v) (st\<lparr>queue := rest\<rparr>))"
        using ag by (rule agree_steps)
      from Suc.IH [OF this] show ?thesis by (simp add: Cons q kv KOut)
    next
      case (KNext fid)
      from agree_rule(1) [OF ag]
      have r: "rel_option agree (next' pn (Suc n) fid v (a\<lparr>queue := rest\<rparr>))
                 (next' pn (Suc n) fid v (st\<lparr>queue := rest\<rparr>))" .
      show ?thesis
      proof (cases "next' pn (Suc n) fid v (st\<lparr>queue := rest\<rparr>)")
        case None
        with r have "next' pn (Suc n) fid v (a\<lparr>queue := rest\<rparr>) = None"
          by (cases "next' pn (Suc n) fid v (a\<lparr>queue := rest\<rparr>)") simp_all
        with None show ?thesis by (simp add: Cons q kv KNext)
      next
        case (Some s')
        with r obtain a' where a': "next' pn (Suc n) fid v (a\<lparr>queue := rest\<rparr>) = Some a'"
          and ag': "agree a' s'"
          by (cases "next' pn (Suc n) fid v (a\<lparr>queue := rest\<rparr>)") simp_all
        from Suc.IH [OF ag'] show ?thesis by (simp add: Cons q kv KNext Some a')
      qed
    qed
  qed
qed

lemma agree_serve:
  assumes "agree a st"
  shows "rel_option agree (serve pn n srv a) (serve pn n srv st)"
proof -
  from agree_rule(5) [OF assms]
  have r: "rel_option agree (handle' pn n (stack srv) KOut a) (handle' pn n (stack srv) KOut st)" .
  show ?thesis
  proof (cases "handle' pn n (stack srv) KOut st")
    case None
    with r have "handle' pn n (stack srv) KOut a = None"
      by (cases "handle' pn n (stack srv) KOut a") simp_all
    with None show ?thesis by (simp add: serve_def Server_call_def)
  next
    case (Some s')
    with r obtain a' where a': "handle' pn n (stack srv) KOut a = Some a'" and ag: "agree a' s'"
      by (cases "handle' pn n (stack srv) KOut a") simp_all
    from agree_run_queue [OF ag] show ?thesis by (simp add: serve_def Server_call_def Some a')
  qed
qed

lemma serve_trace_independent:
  "map_option trace (serve pn n srv (request u a)) = map_option trace (serve pn n srv (request u b))"
proof -
  have "agree (request u a) (request u b)" by (simp add: agree_def request_def)
  from agree_serve [OF this, of pn n srv] show ?thesis
    by (cases "serve pn n srv (request u a)"; cases "serve pn n srv (request u b)")
       (simp_all add: agree_def)
qed

subsection \<open>The order of invocations\<close>

lemma index_trim: "trim f rt u = (f2, u2) \<Longrightarrow> index f2 = index f"
  by (auto simp: trim_def Let_def split: if_splits)

lemma behind_mono:
  assumes "behind d st e" and "\<And>t. d' t \<le> d t"
  shows "behind d' st e"
proof (cases e)
  case (Invoked t i a v as u)
  with assms(1) have "t < length (frames st)" and "i + d t < index (frames st ! t)"
    by (simp_all add: behind_def)
  moreover from assms(2) have "i + d' t \<le> i + d t" by simp
  ultimately show ?thesis using Invoked by (simp add: behind_def)
next
  case (Final v)
  then show ?thesis by (simp add: behind_def)
qed

lemma behind_set_frame:
  assumes "behind d st e" and "fid < length (frames st)"
    and "index f = Suc (index (frames st ! fid))"
  shows "behind (\<lambda>t. if t = fid then Suc (d t) else d t) (set_frame fid f u st) e"
proof (cases e)
  case (Invoked t i a v as w)
  with assms show ?thesis
    by (auto simp: behind_def set_frame_def nth_list_update)
next
  case (Final v)
  then show ?thesis by (simp add: behind_def)
qed

lemma behind_new:
  assumes "behind d st e"
  shows "behind d ((store_originalUrl st)\<lparr>frames := frames (store_originalUrl st) @ [nf]\<rparr>) e"
proof (cases e)
  case (Invoked t i a v as w)
  with assms show ?thesis
    by (auto simp: behind_def store_originalUrl_def nth_append)
next
  case (Final v)
  then show ?thesis by (simp add: behind_def)
qed

lemma behind_frames_same:
  assumes "behind d st e" and "frames st' = frames st"
  shows "behind d st' e"
  using assms by (cases e) (simp_all add: behind_def)

lemma ordered_adv:
  assumes "ordered_state st" and "fid < length (frames st)"
  shows "ordered_state (set_frame fid (advance (frames st ! fid)) u st)"
proof -
  let ?st = "set_frame fid (advance (frames st ! fid)) u st"
  have "\<forall>e \<in> set (trace ?st). behind (\<lambda>t. 0) ?st e"
  proof
    fix e assume "e \<in> set (trace ?st)"
    then have "behind (\<lambda>t. 0) st e" using assms(1) by (simp add: ordered_state_def set_frame_def)
    from behind_set_frame [OF this assms(2), of "advance (frames st ! fid)" u]
    have "behind (\<lambda>t. if t = fid then Suc 0 else 0) ?st e" by (simp add: advance_def)
    then show "behind (\<lambda>t. 0) ?st e" by (rule behind_mono) simp
  qed
  moreover have "sorted_wrt in_order (trace ?st)"
    using assms(1) by (simp add: ordered_state_def set_frame_def)
  ultimately show ?thesis by (simp add: ordered_state_def)
qed

lemma ordered_trm:
  assumes "ordered_state st" and "fid < length (frames st)"
    and "trim (advance (frames st ! fid)) rt u = (f2, u2)"
  shows "ordered_taken fid (set_frame fid f2 u2 st)"
proof -
  let ?st = "set_frame fid f2 u2 st"
  from index_trim [OF assms(3)] have i2: "index f2 = Suc (index (frames st ! fid))"
    by (simp add: advance_def)
  have "\<forall>e \<in> set (trace ?st). behind (\<lambda>t. if t = fid then Suc 0 else 0) ?st e"
  proof
    fix e assume "e \<in> set (trace ?st)"
    then have "behind (\<lambda>t. 0) st e" using assms(1) by (simp add: ordered_state_def set_frame_def)
    from behind_set_frame [OF this assms(2) i2, of u2]
    show "behind (\<lambda>t. if t = fid then Suc 0 else 0) ?st e" by simp
  qed
  moreover have "sorted_wrt in_order (trace ?st)"
    using assms(1) by (simp add: ordered_state_def set_frame_def)
  moreover have "fid < length (frames ?st)" "0 < index (frames ?st ! fid)"
    using assms(2) i2 by (simp_all add: set_frame_def)
  ultimately show ?thesis by (simp add: ordered_taken_def)
qed

lemma ordered_skp:
  assumes "ordered_taken fid st"
  shows "ordered_state st"
proof -
  have "\<forall>e \<in> set (trace st). behind (\<lambda>t. 0) st e"
  proof
    fix e assume "e \<in> set (trace st)"
    with assms have "behind (\<lambda>t. if t = fid then Suc 0 else 0) st e"
      by (simp add: ordered_taken_def)
    then show "behind (\<lambda>t. 0) st e" by (rule behind_mono) simp
  qed
  with assms show ?thesis by (simp add: ordered_state_def ordered_taken_def)
qed

lemma in_order_invoked:
  assumes "behind (\<lambda>t. if t = fid then Suc 0 else 0) st e"
  shows "in_order e (invoked fid a err as st)"
  using assms by (cases e) (auto simp: behind_def in_order_def invoked_def)

lemma ordered_log:
  assumes "ordered_taken fid st"
  shows "ordered_state (log_event (invoked fid a err as st) st)"
proof -
  let ?e = "invoked fid a err as st"
  let ?st = "log_event ?e st"
  from assms have b1: "\<forall>x \<in> set (trace st). behind (\<lambda>t. if t = fid then Suc 0 else 0) st x"
    by (simp add: ordered_taken_def)
  then have io: "\<forall>x \<in> set (trace st). in_order x ?e" using in_order_invoked by blast
  from assms have "behind (\<lambda>t. 0) st ?e"
    by (simp add: ordered_taken_def behind_def invoked_def)
  moreover from ordered_skp [OF assms] have "\<forall>e \<in> set (trace st). behind (\<lambda>t. 0) st e"
    by (simp add: ordered_state_def)
  ultimately have "\<forall>e \<in> set (trace ?st). behind (\<lambda>t. 0) ?st e"
    by (auto simp: log_event_def intro: behind_frames_same)
  moreover from assms io have "sorted_wrt in_order (trace ?st)"
    by (simp add: ordered_taken_def log_event_def sorted_wrt_append)
  ultimately show ?thesis by (simp add: ordered_state_def)
qed

lemma ordered_new:
  assumes "ordered_state st"
  shows "ordered_state ((store_originalUrl st)
                          \<lparr>frames := frames (store_originalUrl st) @ [nf]\<rparr>)"
proof -
  let ?st = "(store_originalUrl st)\<lparr>frames := frames (store_originalUrl st) @ [nf]\<rparr>"
  have tr: "trace ?st = trace st" by (simp add: store_originalUrl_def)
  have "\<forall>e \<in> set (trace ?st). behind (\<lambda>t. 0) ?st e"
    unfolding tr using assms behind_new by (simp add: ordered_state_def)
  with assms tr show ?thesis by (simp add: ordered_state_def)
qed

lemma ordered_url: "ordered_state st \<Longrightarrow> ordered_state (st\<lparr>url := u\<rparr>)"
  by (auto simp: ordered_state_def intro: behind_frames_same)

lemma ordered_defer: "ordered_state st \<Longrightarrow> ordered_state (defer' k v st)"
  by (auto simp: ordered_state_def defer'_def intro: behind_frames_same)

lemma ordered_pop: "ordered_state st \<Longrightarrow> ordered_state (st\<lparr>queue := q\<rparr>)"
  by (auto simp: ordered_state_def intro: behind_frames_same)

lemma ordered_final:
  assumes "ordered_state st"
  shows "ordered_state (log_event (Final v) st)"
proof -
  have "in_order e (Final v)" for e by (cases e) (simp_all add: in_order_def)
  moreover have "behind (\<lambda>t. 0) (log_event (Final v) st) (Final v)" by (simp add: behind_def)
  ultimately show ?thesis using assms
    by (auto simp: ordered_state_def log_event_def sorted_wrt_append
          intro: behind_frames_same)
qed

lemma ordered_next':
  "ordered_state st \<Longrightarrow> next' pn n fid err st = Some st' \<Longrightarrow> ordered_state st'"
  by (rule invariant_rule(1) [where I = ordered_state and Ic = ordered_taken])
     (simp_all add: ordered_adv ordered_trm ordered_skp ordered_log ordered_new
        ordered_url ordered_defer)

lemma ordered_handle':
  "ordered_state st \<Longrightarrow> handle' pn n stk out st = Some st' \<Longrightarrow> ordered_state st'"
  by (rule invariant_rule(5) [where I = ordered_state and Ic = ordered_taken])
     (simp_all add: ordered_adv ordered_trm ordered_skp ordered_log ordered_new
        ordered_url ordered_defer)

lemma ordered_run_queue:
  "ordered_state st \<Longrightarrow> run_queue pn n st = Some st' \<Longrightarrow> ordered_state st'"
  by (rule run_queue_invariant [where I = ordered_state])
     (auto intro: ordered_next' ordered_pop ordered_final)

lemma ordered_serve:
  assumes "serve pn n srv (request u orig) = Some st'"
  shows "sorted_wrt in_order (trace st')"
proof -
  from assms obtain s where h: "handle' pn n (stack srv) KOut (request u orig) = Some s"
    and q: "run_queue pn n s = Some st'"
    by (auto simp: serve_def Server_call_def split: option.splits)
  have "ordered_state (request u orig)" by (simp add: ordered_state_def request_def)
  from ordered_run_queue [OF ordered_handle' [OF this h] q]
  show ?thesis by (simp add: ordered_state_def)
qed

text \<open>
  Claim C8.  For a fixed registry (the handlers' scripts included) and a fixed request
  url, the invocations of a traversal, with their order, the arguments and the url each
  handler finds, are the same whatever \<^verbatim>\<open>req.originalUrl\<close> holds when the request
  arrives, be it nothing or what an earlier traversal left there.  And the layers of
  one traversal are invoked in registration order: of two invocations of layers of the
  same traversal, the earlier one is of the layer with the smaller index.
\<close>

theorem C8_order_determinism:
  "map_option trace (serve pn n srv (request u a))
     = map_option trace (serve pn n srv (request u b))
   \<and> (\<forall>st' i j tid x y ax ex asx ux ay ey asy uy.
         serve pn n srv (request u a) = Some st' \<and> i < j \<and> j < length (trace st')
         \<and> trace st' ! i = Invoked tid x ax ex asx ux
         \<and> trace st' ! j = Invoked tid y ay ey asy uy
         \<longrightarrow> x < y)"
proof -
  have "x < y"
    if run: "serve pn n srv (request u a) = Some st'" and ij: "i < j" "j < length (trace st')"
      and ei: "trace st' ! i = Invoked tid x ax ex asx ux"
      and ej: "trace st' ! j = Invoked tid y ay ey asy uy"
    for st' i j tid x y ax ex asx ux ay ey asy uy
  proof -
    from ordered_serve [OF run] have "sorted_wrt in_order (trace st')" .
    from sorted_wrt_nth_less [OF this ij] have "in_order (trace st' ! i) (trace st' ! j)" .
    then show ?thesis by (simp add: ei ej in_order_def)
  qed
  with serve_trace_independent [of pn n srv u a b] show ?thesis by blast
qed

theorem C8_witness:
  "map_option trace (serve parseUrl_pathname 5 nested (request ''/adm/x'' None))
     = map_option trace (serve parseUrl_pathname 5 nested (request ''/adm/x'' (Some ''/old'')))
   \<and> trace nested_served =
       [Invoked 0 0 (Some 3) Undefined ReqResNext ''/x'',
        Invoked 0 1 (Some 3) Undefined ReqResNext ''/adm/x'']
   \<and> (0::nat) < 1"
proof -
  have run: "serve parseUrl_pathname 5 nested (request ''/adm/x'' None) = Some nested_served"
    by code_simp
  have tr: "trace nested_served =
       [Invoked 0 0 (Some 3) Undefined ReqResNext ''/x'',
        Invoked 0 1 (Some 3) Undefined ReqResNext ''/adm/x'']"
    by code_simp
  have e0: "trace nested_served ! 0 = Invoked 0 0 (Some 3) Undefined ReqResNext ''/x''"
    and e1: "trace nested_served ! 1 = Invoked 0 1 (Some 3) Undefined ReqResNext ''/adm/x''"
    and len: "1 < length (trace nested_served)"
    by (simp_all add: tr)
  from C8_order_determinism [of parseUrl_pathname 5 nested "''/adm/x''" None "Some ''/old''"]
    run e0 e1 len tr
  show ?thesis by blast
qed

end
